theory Spec2Isabelle
  imports Main "HOL-Library.Sublist"
begin

section \<open>Tool toggles\<close>

text \<open>
  The four tool flags of \<^verbatim>\<open>App\<close> are four independent pieces of React state.  Each
  toggle handler negates its own flag inside the state updater and, when the new value is
  true, sets the three other flags to false.
\<close>

record toggles =
  isCodeInterpreterToggled :: bool
  isDeepResearchToggled :: bool
  isImageToolActive :: bool
  isVideoToolActive :: bool

datatype tool = CodeInterpreter | DeepResearch | ImageTool | VideoTool

definition initialToggles :: toggles where
  "initialToggles =
     \<lparr>isCodeInterpreterToggled = False, isDeepResearchToggled = False,
      isImageToolActive = False, isVideoToolActive = False\<rparr>"

definition handleToggleCodeInterpreter :: "toggles \<Rightarrow> toggles" where
  "handleToggleCodeInterpreter s =
     (let newState = \<not> isCodeInterpreterToggled s in
      if newState
      then s\<lparr>isDeepResearchToggled := False, isImageToolActive := False,
              isVideoToolActive := False, isCodeInterpreterToggled := newState\<rparr>
      else s\<lparr>isCodeInterpreterToggled := newState\<rparr>)"

definition handleToggleDeepResearch :: "toggles \<Rightarrow> toggles" where
  "handleToggleDeepResearch s =
     (let newState = \<not> isDeepResearchToggled s in
      if newState
      then s\<lparr>isCodeInterpreterToggled := False, isImageToolActive := False,
              isVideoToolActive := False, isDeepResearchToggled := newState\<rparr>
      else s\<lparr>isDeepResearchToggled := newState\<rparr>)"

definition handleToggleImageTool :: "toggles \<Rightarrow> toggles" where
  "handleToggleImageTool s =
     (let newState = \<not> isImageToolActive s in
      if newState
      then s\<lparr>isCodeInterpreterToggled := False, isDeepResearchToggled := False,
              isVideoToolActive := False, isImageToolActive := newState\<rparr>
      else s\<lparr>isImageToolActive := newState\<rparr>)"

definition handleToggleVideoTool :: "toggles \<Rightarrow> toggles" where
  "handleToggleVideoTool s =
     (let newState = \<not> isVideoToolActive s in
      if newState
      then s\<lparr>isCodeInterpreterToggled := False, isDeepResearchToggled := False,
              isImageToolActive := False, isVideoToolActive := newState\<rparr>
      else s\<lparr>isVideoToolActive := newState\<rparr>)"

fun handleToggle :: "tool \<Rightarrow> toggles \<Rightarrow> toggles" where
  "handleToggle CodeInterpreter s = handleToggleCodeInterpreter s"
| "handleToggle DeepResearch s = handleToggleDeepResearch s"
| "handleToggle ImageTool s = handleToggleImageTool s"
| "handleToggle VideoTool s = handleToggleVideoTool s"

fun toggleAll :: "tool list \<Rightarrow> toggles \<Rightarrow> toggles" where
  "toggleAll [] s = s"
| "toggleAll (t # ts) s = toggleAll ts (handleToggle t s)"

fun isActive :: "tool \<Rightarrow> toggles \<Rightarrow> bool" where
  "isActive CodeInterpreter s = isCodeInterpreterToggled s"
| "isActive DeepResearch s = isDeepResearchToggled s"
| "isActive ImageTool s = isImageToolActive s"
| "isActive VideoTool s = isVideoToolActive s"

definition activeTools :: "toggles \<Rightarrow> tool list" where
  "activeTools s = filter (\<lambda>t. isActive t s) [CodeInterpreter, DeepResearch, ImageTool, VideoTool]"

section \<open>Project file tree\<close>

text \<open>
  \<^verbatim>\<open>FileSystemNode = { name; content?; children? }\<close>: both \<^verbatim>\<open>content\<close> and
  \<^verbatim>\<open>children\<close> are optional, and the code tells a directory from a file by the presence
  of \<^verbatim>\<open>children\<close> alone.  A level of the tree is the index signature
  \<^verbatim>\<open>{ [key: string]: FileSystemNode }\<close>, a map from segment names to nodes.
\<close>

datatype node =
  Node (nodeName: string) (nodeContent: "string option")
       (nodeChildren: "(string \<Rightarrow> node option) option")

type_synonym files = "string \<Rightarrow> node option"

text \<open>\<^verbatim>\<open>path.split('/')\<close>: always at least one part; an empty path gives one empty part.\<close>

fun split :: "char \<Rightarrow> string \<Rightarrow> string list" where
  "split sep [] = [[]]"
| "split sep (c # cs) =
     (if c = sep then [] # split sep cs
      else (case split sep cs of [] \<Rightarrow> [[c]] | p # ps \<Rightarrow> (c # p) # ps))"

text \<open>
  A level of the tree is a plain object (made by an object literal or by \<^verbatim>\<open>JSON.parse\<close>),
  and \<^verbatim>\<open>currentLevel[part]\<close> finds the own key \<open>part\<close> or, when the object has no such
  key, the member of that name inherited from \<^verbatim>\<open>Object.prototype\<close>.  These are the names
  of the inherited members in a browser.  The inherited values are functions, or the prototype
  itself for \<^verbatim>\<open>__proto__\<close>: they are truthy and have no \<^verbatim>\<open>children\<close>.
\<close>

definition objectPrototypeNames :: "string list" where
  "objectPrototypeNames =
     [''constructor'', ''__defineGetter__'', ''__defineSetter__'', ''hasOwnProperty'',
      ''__lookupGetter__'', ''__lookupSetter__'', ''isPrototypeOf'', ''propertyIsEnumerable'',
      ''toString'', ''valueOf'', ''__proto__'', ''toLocaleString'']"

text \<open>
  The loop of \<^verbatim>\<open>findAndUpdateFile\<close> over the parts left to visit.  The source mutates the
  tree in place, also when it later returns \<^verbatim>\<open>false\<close>; the model returns the tree as it
  is after the call, next to the boolean.  At each part \<^verbatim>\<open>currentLevel[part]\<close> is an own
  node, an inherited member, or nothing:
  \<^item> at the last part, an own node with children makes the call return \<^verbatim>\<open>false\<close>, any
    other own node gets the content; an inherited member is found, has no children, and the
    content is assigned to that member, which is no node of the tree, and the call returns
    \<^verbatim>\<open>true\<close>; otherwise a file node is created;
  \<^item> at an earlier part, the loop goes on in the children of an own node and returns
    \<^verbatim>\<open>false\<close> when it has none; an inherited member has none; otherwise an empty
    directory is created and the loop goes on in it.
\<close>

fun updateLevel :: "files \<Rightarrow> string list \<Rightarrow> string \<Rightarrow> bool \<times> files" where
  "updateLevel currentLevel [] content = (True, currentLevel)"
| "updateLevel currentLevel [part] content =
     (case currentLevel part of
        Some m \<Rightarrow>
          if nodeChildren m \<noteq> None then (False, currentLevel)
          else (True, currentLevel(part \<mapsto> Node (nodeName m) (Some content) (nodeChildren m)))
      | None \<Rightarrow>
          if part \<in> set objectPrototypeNames then (True, currentLevel)
          else (True, currentLevel(part \<mapsto> Node part (Some content) None)))"
| "updateLevel currentLevel (part # rest) content =
     (case currentLevel part of
        Some m \<Rightarrow>
          (case nodeChildren m of
             None \<Rightarrow> (False, currentLevel)
           | Some ch \<Rightarrow>
               (case updateLevel ch rest content of
                  (ok, ch') \<Rightarrow>
                    (ok, currentLevel(part \<mapsto> Node (nodeName m) (nodeContent m) (Some ch')))))
      | None \<Rightarrow>
          if part \<in> set objectPrototypeNames then (False, currentLevel)
          else (case updateLevel Map.empty rest content of
                  (ok, ch') \<Rightarrow> (ok, currentLevel(part \<mapsto> Node part None (Some ch')))))"

definition findAndUpdateFile :: "files \<Rightarrow> string \<Rightarrow> string \<Rightarrow> bool \<times> files" where
  "findAndUpdateFile nodes path content = updateLevel nodes (split (CHR ''/'') path) content"

text \<open>The node a sequence of segments resolves to, descending through directories only.\<close>

fun getNode :: "files \<Rightarrow> string list \<Rightarrow> node option" where
  "getNode nodes [] = None"
| "getNode nodes [part] = nodes part"
| "getNode nodes (part # rest) =
     (case nodes part of
        None \<Rightarrow> None
      | Some n \<Rightarrow> (case nodeChildren n of None \<Rightarrow> None | Some ch \<Rightarrow> getNode ch rest))"

text \<open>
  A path is blocked when a proper prefix of it resolves to a node that is not a directory, or
  when the whole path resolves to a directory.
\<close>

definition blockedPath :: "files \<Rightarrow> string list \<Rightarrow> bool" where
  "blockedPath nodes parts \<longleftrightarrow>
     (\<exists>q n. strict_prefix q parts \<and> getNode nodes q = Some n \<and> nodeChildren n = None) \<or>
     (\<exists>n. getNode nodes parts = Some n \<and> nodeChildren n \<noteq> None)"

section \<open>Strings\<close>

text \<open>
  JavaScript strings are modelled as \<^typ>\<open>string\<close>, one \<^typ>\<open>char\<close> per code unit (code
  units above 255 are outside the model).  \<^verbatim>\<open>trim\<close> and the regular-expression class
  \<^verbatim>\<open>\s\<close> use the same set of white space and line terminators; within the
  model these are tab, line feed, vertical tab, form feed, carriage return, space and the
  no-break space.
\<close>

definition isWhiteSpace :: "char \<Rightarrow> bool" where
  "isWhiteSpace c \<longleftrightarrow>
     c \<in> set [CHR 0x09, CHR 0x0A, CHR 0x0B, CHR 0x0C, CHR 0x0D, CHR 0x20, CHR 0xA0]"

definition trim :: "string \<Rightarrow> string" where
  "trim s = rev (dropWhile isWhiteSpace (rev (dropWhile isWhiteSpace s)))"

text \<open>
  \<open>splitAtFirst sub s\<close> cuts \<open>s\<close> at the first (leftmost) occurrence of \<open>sub\<close> into the
  text before the occurrence and the text after it; \<open>None\<close> when \<open>sub\<close> does not occur.
\<close>

fun splitAtFirst :: "string \<Rightarrow> string \<Rightarrow> (string \<times> string) option" where
  "splitAtFirst sub [] = (if sub = [] then Some ([], []) else None)"
| "splitAtFirst sub (c # cs) =
     (if prefix sub (c # cs) then Some ([], drop (length sub) (c # cs))
      else (case splitAtFirst sub cs of None \<Rightarrow> None | Some (b, a) \<Rightarrow> Some (c # b, a)))"

text \<open>\<^verbatim>\<open>indexOf\<close> and \<^verbatim>\<open>lastIndexOf\<close> of a single character; \<open>None\<close> stands for -1.\<close>

fun indexOf :: "char \<Rightarrow> string \<Rightarrow> nat option" where
  "indexOf x [] = None"
| "indexOf x (c # cs) = (if c = x then Some 0 else map_option Suc (indexOf x cs))"

definition lastIndexOf :: "char \<Rightarrow> string \<Rightarrow> nat option" where
  "lastIndexOf x s = map_option (\<lambda>i. length s - 1 - i) (indexOf x (rev s))"

text \<open>\<^verbatim>\<open>s.substring(i, j)\<close> for \<open>i \<le> j\<close>.\<close>

definition substring :: "string \<Rightarrow> nat \<Rightarrow> nat \<Rightarrow> string" where
  "substring s i j = take (j - i) (drop i s)"

section \<open>Sessions, messages and projects\<close>

text \<open>
  The types of \<^verbatim>\<open>types/index.ts\<close>.  Optional fields are options.  Field names that
  occur in several interfaces carry a prefix here: \<^verbatim>\<open>id\<close> is \<open>msgId\<close>, \<open>chatId\<close>,
  \<open>projId\<close>; \<^verbatim>\<open>name\<close> is \<open>attName\<close>, \<open>projName\<close>, \<open>nodeName\<close>; the \<^verbatim>\<open>project\<close> of
  a message is \<open>msgProject\<close>.  The field \<^verbatim>\<open>isParsingReasoning\<close> is never written by the
  code modelled here and is left out.
\<close>

datatype Role = USER | MODEL

record attachment =
  attName :: string
  mimeType :: string
  dataUrl :: string

record project =
  projId :: string
  projName :: string
  description :: string
  files :: files

text \<open>
  A grounding citation as the code reads it: an optional \<^verbatim>\<open>web\<close> object with an optional
  \<^verbatim>\<open>uri\<close>; the title stands for whatever else the entry carries.
\<close>

record webSource =
  uri :: "string option"
  webTitle :: "string option"

record groundingChunk =
  web :: "webSource option"

record chatMessage =
  msgId :: string
  role :: Role
  content :: string
  attachments :: "attachment list option"
  reasoning :: "string option"
  isThinking :: "bool option"
  projectFilesUpdate :: "bool option"
  msgProject :: "project option"
  groundingChunks :: "groundingChunk list option"

record chatSession =
  chatId :: string
  title :: string
  messages :: "chatMessage list"
  project :: "project option"

text \<open>The parts of a response and a response (a streamed chunk or a single-shot result).\<close>

record inlineData =
  inlineMimeType :: string
  inlineBytes :: string

record part =
  partText :: "string option"
  partInlineData :: "inlineData option"

record response =
  responseText :: "string option"
  candidateParts :: "part list option"
  candidateGrounding :: "groundingChunk list option"

section \<open>Finalization of the trailing MODEL message\<close>

subsection \<open>Grounding citations\<close>

text \<open>
  \<^verbatim>\<open>new Map(entries)\<close> sets the entries one after the other.  A JavaScript \<^verbatim>\<open>Map\<close>
  keeps its keys in insertion order, and setting a key that is present replaces the value
  in place.  The map is an association list in insertion order.
\<close>

fun mapSet :: "('k \<times> 'v) list \<Rightarrow> 'k \<Rightarrow> 'v \<Rightarrow> ('k \<times> 'v) list" where
  "mapSet [] k v = [(k, v)]"
| "mapSet ((k', v') # m) k v = (if k' = k then (k, v) # m else (k', v') # mapSet m k v)"

definition newMap :: "('k \<times> 'v) list \<Rightarrow> ('k \<times> 'v) list" where
  "newMap entries = foldl (\<lambda>m (k, v). mapSet m k v) [] entries"

definition mapValues :: "('k \<times> 'v) list \<Rightarrow> 'v list" where
  "mapValues m = map snd m"

text \<open>\<^verbatim>\<open>item.web?.uri\<close>; \<open>None\<close> is \<^verbatim>\<open>undefined\<close>.\<close>

definition chunkUri :: "groundingChunk \<Rightarrow> string option" where
  "chunkUri item = (case web item of None \<Rightarrow> None | Some w \<Rightarrow> uri w)"

text \<open>\<^verbatim>\<open>item && item.web && item.web.uri\<close>: the empty string is falsy.\<close>

definition hasUri :: "groundingChunk \<Rightarrow> bool" where
  "hasUri item \<longleftrightarrow> (case web item of None \<Rightarrow> False
                     | Some w \<Rightarrow> (case uri w of None \<Rightarrow> False | Some u \<Rightarrow> u \<noteq> []))"

definition uniqueChunks :: "groundingChunk list \<Rightarrow> groundingChunk list" where
  "uniqueChunks gs = filter hasUri (mapValues (newMap (map (\<lambda>item. (chunkUri item, item)) gs)))"

definition attachGrounding :: "groundingChunk list \<Rightarrow> chatMessage \<Rightarrow> chatMessage" where
  "attachGrounding gs updatedMsg =
     (if length gs > 0 then updatedMsg\<lparr>groundingChunks := Some (uniqueChunks gs)\<rparr> else updatedMsg)"

subsection \<open>Thinking block of a plain chat response\<close>

text \<open>
  \<^verbatim>\<open>/<thinking>([\s\S]*?)<\/thinking>/\<close> has no flags: it matches at the leftmost opening
  tag that has a closing tag after it, up to the nearest closing tag.  When the first opening
  tag has no closing tag after it no later one has, so the match is decided at the first
  opening tag.  The result is the text before the match, the group, and the text after.
\<close>

definition thinkingMatch :: "string \<Rightarrow> (string \<times> string \<times> string) option" where
  "thinkingMatch s =
     (case splitAtFirst ''<thinking>'' s of
        None \<Rightarrow> None
      | Some (before, rest) \<Rightarrow>
          (case splitAtFirst ''</thinking>'' rest of
             None \<Rightarrow> None
           | Some (inner, after) \<Rightarrow> Some (before, inner, after)))"

definition finalizeChat :: "string \<Rightarrow> chatMessage \<Rightarrow> chatMessage" where
  "finalizeChat fullResponseText updatedMsg =
     (case thinkingMatch fullResponseText of
        Some (before, inner, after) \<Rightarrow>
          updatedMsg\<lparr>reasoning := Some (trim inner), content := trim (before @ after)\<rparr>
      | None \<Rightarrow> updatedMsg\<lparr>content := fullResponseText\<rparr>)"

subsection \<open>Generated media\<close>

text \<open>
  The branch for image and video requests.  \<open>now\<close> is the decimal text of
  \<^verbatim>\<open>Date.now()\<close>.  A part with a non-empty text contributes its text, any other part with
  inline data becomes an attachment.
\<close>

definition mediaAttachment :: "string \<Rightarrow> inlineData \<Rightarrow> attachment" where
  "mediaAttachment now d =
     \<lparr>attName = ''generated-'' @ (if prefix ''video/'' (inlineMimeType d) then ''video'' else ''image'')
                  @ ''-'' @ now,
      mimeType = inlineMimeType d,
      dataUrl = ''data:'' @ inlineMimeType d @ '';base64,'' @ inlineBytes d\<rparr>"

fun collectParts :: "string \<Rightarrow> part list \<Rightarrow> string \<times> attachment list \<Rightarrow> string \<times> attachment list" where
  "collectParts now [] acc = acc"
| "collectParts now (p # ps) (finalContent, finalAttachments) =
     (case partText p of
        Some (c # cs) \<Rightarrow> collectParts now ps (finalContent @ c # cs, finalAttachments)
      | _ \<Rightarrow>
          (case partInlineData p of
             Some d \<Rightarrow> collectParts now ps (finalContent, finalAttachments @ [mediaAttachment now d])
           | None \<Rightarrow> collectParts now ps (finalContent, finalAttachments)))"

definition finalizeMedia :: "bool \<Rightarrow> string \<Rightarrow> string \<Rightarrow> part list \<Rightarrow> chatMessage \<Rightarrow> chatMessage" where
  "finalizeMedia isVideoRequest now fullResponseText finalParts updatedMsg =
     (let (finalContent, finalAttachments) =
            (if length finalParts > 0 then collectParts now finalParts ([], [])
             else if fullResponseText \<noteq> [] then (fullResponseText, [])
             else ([], []))
      in updatedMsg\<lparr>content := (if finalContent \<noteq> [] then finalContent
                                  else if isVideoRequest then ''Here is your generated video.'' else []),
                      attachments := Some finalAttachments\<rparr>)"

subsection \<open>Structured project response\<close>

text \<open>
  The accumulated text is trimmed; the group of
  \<^verbatim>\<open>/```json\s*([\s\S]*?)\s*```/\<close> is taken when the expression matches with a non-empty
  group, otherwise the text from the first opening brace to the last closing brace when the
  latter comes after the former, otherwise the trimmed text itself.  The group starts after
  the white space that follows the opening fence and ends before the white space that
  precedes the next fence.
\<close>

definition jsonFence :: "string \<Rightarrow> string option" where
  "jsonFence s =
     (case splitAtFirst ''```json'' s of
        None \<Rightarrow> None
      | Some (before, rest) \<Rightarrow>
          (case splitAtFirst ''```'' (dropWhile isWhiteSpace rest) of
             None \<Rightarrow> None
           | Some (inner, after) \<Rightarrow> Some (rev (dropWhile isWhiteSpace (rev inner)))))"

definition cleanJsonString :: "string \<Rightarrow> string" where
  "cleanJsonString fullResponseText =
     (let cleanedJsonString = trim fullResponseText in
      case jsonFence cleanedJsonString of
        Some (c # cs) \<Rightarrow> c # cs
      | _ \<Rightarrow>
         (case (indexOf (CHR ''{'') cleanedJsonString, lastIndexOf (CHR ''}'') cleanedJsonString) of
            (Some firstBrace, Some lastBrace) \<Rightarrow>
              if lastBrace > firstBrace then substring cleanedJsonString firstBrace (lastBrace + 1)
              else cleanedJsonString
          | _ \<Rightarrow> cleanedJsonString))"

text \<open>
  \<^verbatim>\<open>JSON.parse\<close> belongs to the JavaScript runtime; it is a parameter of the model, and
  \<open>None\<close> is a thrown \<^verbatim>\<open>SyntaxError\<close>.  Its result is seen through what the code reads of
  it.  Reading a property of \<^verbatim>\<open>null\<close> throws.  Any other value has the three properties
  \<^verbatim>\<open>projectName\<close>, \<^verbatim>\<open>explanation\<close> and \<^verbatim>\<open>files\<close> absent (as on a number, a string, an
  array or an object without them) or present, and then at the types of
  \<^verbatim>\<open>interpreterResponseSchema\<close>: two strings and an array of path and content.
\<close>

record fileEntry =
  filePath :: string
  fileContent :: string

datatype parsedResponse =
  ParsedNull
| ParsedValue (projectName: "string option") (explanation: "string option")
              (payloadFiles: "fileEntry list option")

definition notExpectedFormat :: string where
  "notExpectedFormat =
     ''The AI response was not in the expected format. Here is the raw response:'' @ [CHR 0x0A, CHR 0x0A]"

definition failedToParse :: string where
  "failedToParse =
     ''Failed to parse the AI'' @ [CHR 0x27] @ ''s code response. Here is the raw response:''
       @ [CHR 0x0A, CHR 0x0A]"

text \<open>
  The \<^verbatim>\<open>forEach\<close> over the files of the payload: every entry is upserted into the copy of
  the project's files, and the path of an entry whose upsert succeeded becomes the last
  updated file.  The tree keeps what an upsert did also when that upsert returned
  \<^verbatim>\<open>false\<close>.
\<close>

fun applyFiles :: "fileEntry list \<Rightarrow> files \<times> string \<Rightarrow> files \<times> string" where
  "applyFiles [] acc = acc"
| "applyFiles (file # rest) (projectFiles, lastUpdatedFile) =
     (case findAndUpdateFile projectFiles (filePath file) (fileContent file) of
        (ok, projectFiles') \<Rightarrow>
          applyFiles rest (projectFiles', if ok then filePath file else lastUpdatedFile))"

text \<open>
  What the success branch hands to the code panel: the active file, the pending project and
  the code to stream.  (The calls that only open or close panels are left out.)
\<close>

record projectUi =
  uiActiveInterpreterFile :: string
  uiPendingProjectUpdate :: project
  uiStreamingCode :: string

definition finalizeProject ::
  "(string \<Rightarrow> parsedResponse option) \<Rightarrow> string \<Rightarrow> project \<Rightarrow> chatMessage
     \<Rightarrow> chatMessage \<times> projectUi option" where
  "finalizeProject jsonParse fullResponseText prevProject updatedMsg =
     (case jsonParse (cleanJsonString fullResponseText) of
        None \<Rightarrow> (updatedMsg\<lparr>content := failedToParse @ fullResponseText\<rparr>, None)
      | Some ParsedNull \<Rightarrow> (updatedMsg\<lparr>content := failedToParse @ fullResponseText\<rparr>, None)
      | Some (ParsedValue pn ex fs) \<Rightarrow>
          (case (fs, ex, pn) of
             (Some fileList, Some (e # es), Some (n # ns)) \<Rightarrow>
               (case applyFiles fileList (files prevProject, ''index.html'') of
                  (projectFiles, lastUpdatedFile) \<Rightarrow>
                    (let projectForUpdate = prevProject\<lparr>projName := n # ns, files := projectFiles\<rparr>
                     in (updatedMsg\<lparr>content := e # es, msgProject := Some projectForUpdate\<rparr>,
                         Some \<lparr>uiActiveInterpreterFile = lastUpdatedFile,
                               uiPendingProjectUpdate = projectForUpdate,
                               uiStreamingCode =
                                 (case find (\<lambda>f. filePath f = lastUpdatedFile) fileList of
                                    Some f \<Rightarrow> fileContent f
                                  | None \<Rightarrow> [])\<rparr>)))
           | _ \<Rightarrow> (updatedMsg\<lparr>content := notExpectedFormat @ fullResponseText\<rparr>, None)))"

subsection \<open>The final updater\<close>

text \<open>
  \<^verbatim>\<open>finalUpdater\<close> of \<^verbatim>\<open>handleSendMessage\<close>, with the variables it closes over as
  arguments.  It changes only a trailing MODEL message; the session's own \<^verbatim>\<open>project\<close> is
  never written here.
\<close>

record finalInput =
  isImageRequest :: bool
  isVideoRequest :: bool
  isInterpreterRequest :: bool
  fullResponseText :: string
  finalParts :: "part list"
  groundingChunksAcc :: "groundingChunk list"

definition finalizeBranch ::
  "string \<Rightarrow> (string \<Rightarrow> parsedResponse option) \<Rightarrow> finalInput \<Rightarrow> chatSession \<Rightarrow> chatMessage
     \<Rightarrow> chatMessage \<times> projectUi option" where
  "finalizeBranch now jsonParse inp prev updatedMsg =
     (if isImageRequest inp \<or> isVideoRequest inp
      then (finalizeMedia (isVideoRequest inp) now (fullResponseText inp) (finalParts inp) updatedMsg, None)
      else (case (isInterpreterRequest inp, project prev) of
              (True, Some p) \<Rightarrow> finalizeProject jsonParse (fullResponseText inp) p updatedMsg
            | _ \<Rightarrow> (finalizeChat (fullResponseText inp) updatedMsg, None)))"

definition finalUpdater ::
  "string \<Rightarrow> (string \<Rightarrow> parsedResponse option) \<Rightarrow> finalInput \<Rightarrow> chatSession
     \<Rightarrow> chatSession \<times> projectUi option" where
  "finalUpdater now jsonParse inp prev =
     (case messages prev of
        [] \<Rightarrow> (prev, None)
      | _ # _ \<Rightarrow>
         (let lastMsg = last (messages prev) in
          if role lastMsg = MODEL then
            (case finalizeBranch now jsonParse inp prev lastMsg of
               (updatedMsg, ui) \<Rightarrow>
                 (prev\<lparr>messages := butlast (messages prev) @
                      [(attachGrounding (groundingChunksAcc inp) updatedMsg)\<lparr>isThinking := Some False\<rparr>]\<rparr>,
                  ui))
          else (prev, None)))"

text \<open>The message that the final updater leaves at the end of a session.\<close>

definition finalizedMessage ::
  "string \<Rightarrow> (string \<Rightarrow> parsedResponse option) \<Rightarrow> finalInput \<Rightarrow> chatSession \<Rightarrow> chatMessage" where
  "finalizedMessage now jsonParse inp prev = last (messages (fst (finalUpdater now jsonParse inp prev)))"

subsection \<open>Reference functions for the citation list\<close>

text \<open>
  The list the specification describes: entries without a usable URL dropped, and of the
  entries of one URL the first kept, in first-seen order.
\<close>

fun dedupFirstWins :: "string list \<Rightarrow> groundingChunk list \<Rightarrow> groundingChunk list" where
  "dedupFirstWins seen [] = []"
| "dedupFirstWins seen (g # gs) =
     (case chunkUri g of
        Some (c # cs) \<Rightarrow>
          if c # cs \<in> set seen then dedupFirstWins seen gs
          else g # dedupFirstWins ((c # cs) # seen) gs
      | _ \<Rightarrow> dedupFirstWins seen gs)"

text \<open>The distinct elements of a list in the order of their first occurrences.\<close>

definition firstOccurrences :: "'a list \<Rightarrow> 'a list" where
  "firstOccurrences xs = rev (remdups (rev xs))"

definition usableKey :: "string option \<Rightarrow> bool" where
  "usableKey k \<longleftrightarrow> (case k of Some (c # cs) \<Rightarrow> True | _ \<Rightarrow> False)"

text \<open>
  The list the code builds: one entry for each usable URL, in first-seen order of the URLs,
  and for each URL the last of the entries that carry it.
\<close>

definition dedupLastWins :: "groundingChunk list \<Rightarrow> groundingChunk list" where
  "dedupLastWins gs =
     map (\<lambda>k. last (filter (\<lambda>g. chunkUri g = k) gs))
         (filter usableKey (firstOccurrences (map chunkUri gs)))"

section \<open>Application state\<close>

text \<open>
  The React state of \<^verbatim>\<open>App\<close> that the request handlers read and write, with the abort
  controllers.  Every \<^verbatim>\<open>new AbortController()\<close> adds an entry to \<open>controllers\<close> (the
  \<^verbatim>\<open>aborted\<close> flag of its signal); \<open>abortControllerRef\<close> is \<^verbatim>\<open>abortControllerRef.current\<close>.
  State setters take effect in the order in which they are called.  \<open>log\<close> is not part of
  the program: it records, in order, the effects of the handlers.
\<close>

datatype endpoint = GenerateImage | GenerateVideo | GenerateChatResponse

datatype event =
  Alert string
| SetIsLoading bool
| TurnAppended
| ProjectCreated
| AdapterCall endpoint
| ChunkObserved
| ResponseObserved
| StreamEcho
| StopPressed
| AdapterReturned
| AdapterThrewAbortError
| AdapterThrewError
| ErrorCommit
| FinalCommit
| UnhandledRejection

record app =
  isLoading :: bool
  chatHistory :: "chatSession list"
  activeChatId :: "string option"
  controllers :: "bool list"
  abortControllerRef :: "nat option"
  activeInterpreterFile :: string
  pendingProjectUpdate :: "project option"
  streamingTarget :: "(string \<times> string) option"
  isCodePanelVisible :: bool
  log :: "event list"

definition emit :: "event list \<Rightarrow> app \<Rightarrow> app" where
  "emit es a = a\<lparr>log := log a @ es\<rparr>"

text \<open>\<^verbatim>\<open>prev.map(chat => chat.id === id ? f(chat) : chat)\<close>.\<close>

definition updateChat :: "string \<Rightarrow> (chatSession \<Rightarrow> chatSession) \<Rightarrow> chatSession list \<Rightarrow> chatSession list" where
  "updateChat cid f history = map (\<lambda>chat. if chatId chat = cid then f chat else chat) history"

text \<open>Replacing the last message of a session that has one.\<close>

definition replaceLast :: "chatMessage \<Rightarrow> chatSession \<Rightarrow> chatSession" where
  "replaceLast m s = s\<lparr>messages := butlast (messages s) @ [m]\<rparr>"

subsection \<open>Stopping\<close>

text \<open>
  \<^verbatim>\<open>handleStopGeneration\<close>.  The values it closes over, \<^verbatim>\<open>activeChatId\<close> and
  \<^verbatim>\<open>isLoading\<close>, are those of the state in which the user presses the button.
\<close>

definition stoppedNotice :: string where
  "stoppedNotice = ''You stopped this response.''"

definition stopUpdater :: "bool \<Rightarrow> chatSession \<Rightarrow> chatSession" where
  "stopUpdater loading chat =
     (case messages chat of
        [] \<Rightarrow> chat
      | _ # _ \<Rightarrow>
          (let lastMessage = last (messages chat) in
           if role lastMessage = MODEL \<and> loading
           then replaceLast (lastMessage\<lparr>content := stoppedNotice, isThinking := Some False\<rparr>) chat
           else chat))"

definition handleStopGeneration :: "app \<Rightarrow> app" where
  "handleStopGeneration a =
     emit [StopPressed]
       (a\<lparr>controllers := (case abortControllerRef a of
                             Some i \<Rightarrow> (controllers a)[i := True]
                           | None \<Rightarrow> controllers a),
          abortControllerRef := None,
          isLoading := False,
          chatHistory := map (\<lambda>chat. if Some (chatId chat) = activeChatId a
                                       then stopUpdater (isLoading a) chat else chat)
                             (chatHistory a)\<rparr>)"

subsection \<open>The request in flight\<close>

text \<open>
  The variables of one call of \<^verbatim>\<open>handleSendMessage\<close> that its callbacks share: the
  session the request writes to, its own abort signal, whether streamed text is echoed into
  the session, the accumulators (with the three request flags) and the last response seen.
\<close>

record request =
  requestChatId :: string
  signal :: nat
  echo :: bool
  acc :: finalInput
  fullResponse :: "response option"

definition aborted :: "request \<Rightarrow> app \<Rightarrow> bool" where
  "aborted r a \<longleftrightarrow> signal r < length (controllers a) \<and> controllers a ! signal r"

text \<open>
  The user can act only while the request is suspended at an \<^verbatim>\<open>await\<close>.  \<open>stopAt\<close> is
  the number of the suspension during which Stop is pressed, if it is pressed at all; other
  user actions during a request are not modelled.
\<close>

definition awaitPoint :: "nat option \<Rightarrow> nat \<Rightarrow> app \<Rightarrow> app" where
  "awaitPoint stopAt k a = (if stopAt = Some k then handleStopGeneration a else a)"

text \<open>The callback given to \<^verbatim>\<open>generateChatResponse\<close>, with the echo into the session.\<close>

definition streamUpdater :: "string \<Rightarrow> chatSession \<Rightarrow> chatSession" where
  "streamUpdater newContent prevSession =
     (case messages prevSession of
        [] \<Rightarrow> prevSession
      | _ # _ \<Rightarrow>
          (let lastMessage = last (messages prevSession) in
           if role lastMessage \<noteq> MODEL then prevSession
           else replaceLast (lastMessage\<lparr>content := newContent\<rparr>) prevSession))"

definition onChunk :: "response \<Rightarrow> request \<times> app \<Rightarrow> request \<times> app" where
  "onChunk chunk ra =
     (case ra of (r, a) \<Rightarrow>
        (let i = (acc r)
               \<lparr>finalParts := (case candidateParts chunk of
                                  Some ps \<Rightarrow> ps | None \<Rightarrow> finalParts (acc r)),
                 fullResponseText := fullResponseText (acc r) @
                                 (case responseText chunk of Some t \<Rightarrow> t | None \<Rightarrow> ''undefined''),
                 groundingChunksAcc := groundingChunksAcc (acc r) @
                                 (case candidateGrounding chunk of Some gs \<Rightarrow> gs | None \<Rightarrow> [])\<rparr>;
             r' = r\<lparr>fullResponse := Some chunk, acc := i\<rparr>
         in if echo r
            then (r', emit [ChunkObserved, StreamEcho]
                        (a\<lparr>chatHistory := updateChat (requestChatId r)
                                             (streamUpdater (fullResponseText i)) (chatHistory a)\<rparr>))
            else (r', emit [ChunkObserved] a)))"

section \<open>Generation client\<close>

text \<open>
  The functions of \<^verbatim>\<open>services/geminiService\<close> as far as the handlers observe them: which
  chunks reach the callback, where the abort signal is tested, and how the call ends.  The
  vendor SDK is given by what it delivers: whether the stream opens, the chunks it yields,
  whether it then completes or fails, the result of the non-streaming call for image
  editing, the generated images, the number of polling rounds of a video operation and the
  video.  A missing result is a rejection by the SDK.  The building of the request payload
  is left out.
\<close>

record sdk =
  streamOpens :: bool
  streamChunks :: "response list"
  streamCompletes :: bool
  contentResult :: "response option"
  imagesResult :: "string list option"
  videoPolls :: nat
  videoResult :: "string option"

datatype outcome = Returned | ThrewAbortError | ThrewError

datatype Model =
  GEMINI_2_5_PRO | GEMINI_2_5_FLASH | GEMINI_2_5_FLASH_LITE | GEMINI_2_5_FLASH_IMAGE_PREVIEW
| GEMINI_2_0_FLASH | GEMINI_2_0_FLASH_PREVIEW_IMAGE_GENERATION | GEMINI_2_0_FLASH_LITE
| IMAGEN_4_0_GENERATE_001 | IMAGEN_4_0_ULTRA_GENERATE_001 | IMAGEN_4_0_FAST_GENERATE_001
| IMAGEN_3_0_GENERATE_002 | VEO_3_0_GENERATE_PREVIEW | VEO_3_0_FAST_GENERATE_PREVIEW
| VEO_2_0_GENERATE_001 | GEMMA_3N_E2B | GEMMA_3N_E4B | GEMMA_3_1B | GEMMA_3_4B | GEMMA_3_12B
| GEMMA_3_27B

definition imageEditModels :: "Model list" where
  "imageEditModels = [GEMINI_2_0_FLASH_PREVIEW_IMAGE_GENERATION, GEMINI_2_5_FLASH_IMAGE_PREVIEW]"

text \<open>
  The loop of \<^verbatim>\<open>generateChatResponse\<close> over the stream.  The signal is tested at the top
  of every round, before \<^verbatim>\<open>await iterator.next()\<close>, and not again before the chunk is
  handed to the callback.  \<open>k\<close> numbers the suspension of the round.
\<close>

fun streamLoop ::
  "nat option \<Rightarrow> nat \<Rightarrow> response list \<Rightarrow> bool \<Rightarrow> request \<times> app \<Rightarrow> outcome \<times> request \<times> app" where
  "streamLoop stopAt k [] completes (r, a) =
     (if aborted r a then (ThrewAbortError, r, a)
      else (if completes then Returned else ThrewError, r, awaitPoint stopAt k a))"
| "streamLoop stopAt k (chunk # rest) completes (r, a) =
     (if aborted r a then (ThrewAbortError, r, a)
      else streamLoop stopAt (Suc k) rest completes (onChunk chunk (r, awaitPoint stopAt k a)))"

definition generateChatResponse ::
  "Model \<Rightarrow> sdk \<Rightarrow> nat option \<Rightarrow> request \<times> app \<Rightarrow> outcome \<times> request \<times> app" where
  "generateChatResponse modelName s stopAt ra =
     (case ra of (r, a) \<Rightarrow>
        if modelName \<in> set imageEditModels
        then (if aborted r a then (ThrewAbortError, r, a)
              else (case contentResult s of
                      None \<Rightarrow> (ThrewError, r, awaitPoint stopAt 0 a)
                    | Some resp \<Rightarrow>
                        (case onChunk resp (r, awaitPoint stopAt 0 a) of
                           (r', a') \<Rightarrow> (Returned, r', a'))))
        else (if streamOpens s
              then streamLoop stopAt 1 (streamChunks s) (streamCompletes s) (r, awaitPoint stopAt 0 a)
              else (ThrewError, r, awaitPoint stopAt 0 a)))"

text \<open>
  \<^verbatim>\<open>generateImage\<close>: one awaited call, with the signal tested before and after it.  The
  response has an empty text and one inline PNG part for each image.
\<close>

definition imageResponse :: "string list \<Rightarrow> response" where
  "imageResponse images =
     \<lparr>responseText = Some [],
      candidateParts = Some (map (\<lambda>bytes. \<lparr>partText = None,
                 partInlineData = Some \<lparr>inlineMimeType = ''image/png'', inlineBytes = bytes\<rparr>\<rparr>) images),
      candidateGrounding = None\<rparr>"

definition generateImage :: "sdk \<Rightarrow> nat option \<Rightarrow> request \<times> app \<Rightarrow> outcome \<times> request \<times> app" where
  "generateImage s stopAt ra =
     (case ra of (r, a) \<Rightarrow>
        if aborted r a then (ThrewAbortError, r, a)
        else (let a1 = awaitPoint stopAt 0 a in
              case imagesResult s of
                None \<Rightarrow> (ThrewError, r, a1)
              | Some images \<Rightarrow>
                  if aborted r a1 then (ThrewAbortError, r, a1)
                  else (Returned, r\<lparr>fullResponse := Some (imageResponse images)\<rparr>,
                        emit [ResponseObserved] a1)))"

text \<open>
  \<^verbatim>\<open>generateVideo\<close>: the call that starts the operation, then polling rounds of two
  suspensions each with the signal tested at the top of every round, a test after the loop,
  and three more suspensions (download, blob, file reader) with no test after them.  A
  failure of the service is reported where the download link is read.
\<close>

fun pollLoop :: "nat option \<Rightarrow> nat \<Rightarrow> nat \<Rightarrow> request \<Rightarrow> app \<Rightarrow> bool \<times> nat \<times> app" where
  "pollLoop stopAt k 0 r a = (False, k, a)"
| "pollLoop stopAt k (Suc n) r a =
     (if aborted r a then (True, k, a)
      else pollLoop stopAt (k + 2) n r (awaitPoint stopAt (k + 1) (awaitPoint stopAt k a)))"

definition videoResponse :: "string \<Rightarrow> response" where
  "videoResponse bytes =
     \<lparr>responseText = Some ''Your video has been generated.'',
      candidateParts = Some [\<lparr>partText = None,
                 partInlineData = Some \<lparr>inlineMimeType = ''video/mp4'', inlineBytes = bytes\<rparr>\<rparr>],
      candidateGrounding = None\<rparr>"

definition generateVideo :: "sdk \<Rightarrow> nat option \<Rightarrow> request \<times> app \<Rightarrow> outcome \<times> request \<times> app" where
  "generateVideo s stopAt ra =
     (case ra of (r, a) \<Rightarrow>
        if aborted r a then (ThrewAbortError, r, a)
        else (case pollLoop stopAt 1 (videoPolls s) r (awaitPoint stopAt 0 a) of
                (stopped, k, a1) \<Rightarrow>
                  if stopped \<or> aborted r a1 then (ThrewAbortError, r, a1)
                  else (case videoResult s of
                          None \<Rightarrow> (ThrewError, r, a1)
                        | Some bytes \<Rightarrow>
                            (Returned, r\<lparr>fullResponse := Some (videoResponse bytes)\<rparr>,
                             emit [ResponseObserved]
                               (awaitPoint stopAt (k + 2)
                                  (awaitPoint stopAt (k + 1) (awaitPoint stopAt k a1)))))))"

section \<open>Sending a message\<close>

text \<open>
  What \<^verbatim>\<open>handleSendMessage\<close> reads besides the application state: the tool flags, the
  base model of the selected model, the thinking switch, the clock (\<open>dateNow\<close> is the decimal
  text of \<^verbatim>\<open>Date.now()\<close>, the same for every reading during one call),
  \<^verbatim>\<open>JSON.parse\<close>, and the HTML text of \<^verbatim>\<open>initialFiles\<close>.  \<^verbatim>\<open>isLoading\<close>,
  \<^verbatim>\<open>activeChatId\<close> and \<^verbatim>\<open>chatHistory\<close> are those of the state in which the handler is
  called.
\<close>

record env =
  tools :: toggles
  activeBaseModel :: "Model option"
  useThinking :: bool
  dateNow :: string
  parseJson :: "string \<Rightarrow> parsedResponse option"
  initialIndexHtml :: string

definition isTextToImageModel :: "Model option \<Rightarrow> bool" where
  "isTextToImageModel m \<longleftrightarrow>
     (case m of None \<Rightarrow> False
      | Some b \<Rightarrow> b \<in> set [IMAGEN_4_0_GENERATE_001, IMAGEN_4_0_ULTRA_GENERATE_001,
                           IMAGEN_4_0_FAST_GENERATE_001, IMAGEN_3_0_GENERATE_002])"

definition isImageEditModel :: "Model option \<Rightarrow> bool" where
  "isImageEditModel m \<longleftrightarrow> (case m of None \<Rightarrow> False | Some b \<Rightarrow> b \<in> set imageEditModels)"

text \<open>The two copies of \<^verbatim>\<open>App\<close> differ in which models count as video models.\<close>

definition isVideoModel :: "Model option \<Rightarrow> bool" where
  "isVideoModel m \<longleftrightarrow> m = Some VEO_2_0_GENERATE_001"

definition isVideoModel2 :: "Model option \<Rightarrow> bool" where
  "isVideoModel2 m \<longleftrightarrow>
     (case m of None \<Rightarrow> False
      | Some b \<Rightarrow> b \<in> set [VEO_2_0_GENERATE_001, VEO_3_0_GENERATE_PREVIEW,
                           VEO_3_0_FAST_GENERATE_PREVIEW])"

definition isThinkingModel :: "Model option \<Rightarrow> bool" where
  "isThinkingModel m \<longleftrightarrow>
     (case m of None \<Rightarrow> False
      | Some b \<Rightarrow> b \<in> set [GEMINI_2_5_PRO, GEMINI_2_5_FLASH, GEMINI_2_5_FLASH_LITE])"

definition isProModel :: "Model option \<Rightarrow> bool" where
  "isProModel m \<longleftrightarrow> m = Some GEMINI_2_5_PRO"

definition modelForApi :: "env \<Rightarrow> Model" where
  "modelForApi e = (case activeBaseModel e of Some b \<Rightarrow> b | None \<Rightarrow> GEMINI_2_5_FLASH)"

definition textToImageAlert :: string where
  "textToImageAlert =
     ''Text-to-image models do not support file attachments. Please remove the attached files.''"

definition imageEditAlert :: string where
  "imageEditAlert =
     ''Image editing models require a file attachment. Please attach an image to edit.''"

definition uiUserMessage :: "env \<Rightarrow> string \<Rightarrow> attachment list \<Rightarrow> chatMessage" where
  "uiUserMessage e prompt atts =
     \<lparr>msgId = ''msg-user-'' @ dateNow e, role = USER, content = prompt, attachments = Some atts,
      reasoning = None, isThinking = None, projectFilesUpdate = None, msgProject = None,
      groundingChunks = None\<rparr>"

text \<open>
  The placeholder of a video request starts, in the source, with a film-clapper emoji, which
  is outside the modelled characters and is left out.
\<close>

definition videoPlaceholder :: string where
  "videoPlaceholder =
     '' **Generating your video...**'' @ [CHR 0x0A, CHR 0x0A] @
     ''This process can take several minutes. Please wait while the model creates your content.''"

definition placeholderModelMessage :: "env \<Rightarrow> chatMessage" where
  "placeholderModelMessage e =
     (let isThinkingActive = isThinkingModel (activeBaseModel e) \<and>
                             (isProModel (activeBaseModel e) \<or> useThinking e)
      in \<lparr>msgId = ''msg-model-'' @ dateNow e, role = MODEL,
          content = (if isVideoToolActive (tools e) then videoPlaceholder else []),
          attachments = None, reasoning = Some [],
          isThinking = Some (isThinkingActive \<or> isImageToolActive (tools e) \<or> isVideoToolActive (tools e)),
          projectFilesUpdate = Some (isCodeInterpreterToggled (tools e)),
          msgProject = None, groundingChunks = None\<rparr>)"

definition promptTitle :: "string \<Rightarrow> string" where
  "promptTitle prompt = take 40 prompt @ (if length prompt > 40 then ''...'' else [])"

definition createNewProject :: "env \<Rightarrow> string \<Rightarrow> project" where
  "createNewProject e name =
     \<lparr>projId = ''proj_'' @ dateNow e, projName = name, description = ''A new coding project.'',
      files = Map.empty(''index.html'' \<mapsto> Node ''index.html'' (Some (initialIndexHtml e)) None)\<rparr>"

definition projectForPrompt :: "env \<Rightarrow> string \<Rightarrow> project" where
  "projectForPrompt e prompt = createNewProject e (''Project for: '' @ take 30 prompt @ ''...'')"

definition newRequest :: "env \<Rightarrow> bool \<Rightarrow> string \<Rightarrow> nat \<Rightarrow> request" where
  "newRequest e videoModel cid sig =
     \<lparr>requestChatId = cid, signal = sig,
      echo = (\<not> isCodeInterpreterToggled (tools e) \<and> \<not> isImageEditModel (activeBaseModel e) \<and>
              \<not> isTextToImageModel (activeBaseModel e) \<and> \<not> videoModel),
      acc = \<lparr>isImageRequest = isImageToolActive (tools e),
             isVideoRequest = isVideoToolActive (tools e),
             isInterpreterRequest = isCodeInterpreterToggled (tools e),
             fullResponseText = [], finalParts = [], groundingChunksAcc = []\<rparr>,
      fullResponse = None\<rparr>"

text \<open>\<^verbatim>\<open>setIsLoading(true)\<close> and the fresh abort controller.\<close>

definition startLoading :: "app \<Rightarrow> app" where
  "startLoading a =
     emit [SetIsLoading True]
       (a\<lparr>isLoading := True, controllers := controllers a @ [False],
          abortControllerRef := Some (length (controllers a))\<rparr>)"

text \<open>The body of the \<^verbatim>\<open>try\<close> block: one call of the generation client.\<close>

definition dispatch :: "env \<Rightarrow> sdk \<Rightarrow> nat option \<Rightarrow> request \<times> app \<Rightarrow> outcome \<times> request \<times> app" where
  "dispatch e s stopAt ra =
     (case ra of (r, a) \<Rightarrow>
        if isImageToolActive (tools e) \<and> isTextToImageModel (activeBaseModel e)
        then generateImage s stopAt (r, emit [AdapterCall GenerateImage] a)
        else if isVideoToolActive (tools e)
        then generateVideo s stopAt (r, emit [AdapterCall GenerateVideo] a)
        else generateChatResponse (modelForApi e) s stopAt (r, emit [AdapterCall GenerateChatResponse] a))"

text \<open>The \<^verbatim>\<open>catch\<close> clause: an abort error returns silently, any other error is written.\<close>

definition errorNotice :: string where
  "errorNotice = ''Sorry, I encountered an error. Please try again.''"

definition errorUpdater :: "chatSession \<Rightarrow> chatSession" where
  "errorUpdater prev =
     (case messages prev of
        [] \<Rightarrow> prev
      | _ # _ \<Rightarrow>
          (let lastMessage = last (messages prev) in
           if role lastMessage = MODEL
           then replaceLast (lastMessage\<lparr>content := errorNotice, isThinking := Some False\<rparr>) prev
           else prev))"

definition outcomeEvents :: "outcome \<Rightarrow> event list" where
  "outcomeEvents oc =
     (case oc of
        Returned \<Rightarrow> [AdapterReturned]
      | ThrewAbortError \<Rightarrow> [AdapterThrewAbortError]
      | ThrewError \<Rightarrow> [AdapterThrewError, ErrorCommit])"

definition catchClause :: "outcome \<Rightarrow> request \<Rightarrow> app \<Rightarrow> app" where
  "catchClause oc r a =
     emit (outcomeEvents oc)
       (case oc of
          ThrewError \<Rightarrow> a\<lparr>chatHistory := updateChat (requestChatId r) errorUpdater (chatHistory a)\<rparr>
        | _ \<Rightarrow> a)"

text \<open>
  The \<^verbatim>\<open>finally\<close> clause.  It clears the loading flag first and returns if the signal of
  the request is aborted.  Otherwise the last response, when there is one, overrides the
  accumulated parts and text (in the second copy of \<^verbatim>\<open>App\<close> the text only for image and
  video requests), and the final updater is applied to the session of the request.
\<close>

definition fromResponse :: "bool \<Rightarrow> request \<Rightarrow> finalInput" where
  "fromResponse textAlways r =
     (case fullResponse r of
        None \<Rightarrow> acc r
      | Some resp \<Rightarrow>
          (acc r)\<lparr>finalParts := (case candidateParts resp of
                                    Some ps \<Rightarrow> ps | None \<Rightarrow> finalParts (acc r)),
                   fullResponseText :=
                     (if textAlways \<or> isImageRequest (acc r) \<or> isVideoRequest (acc r)
                      then (case responseText resp of
                              Some (c # cs) \<Rightarrow> c # cs | _ \<Rightarrow> fullResponseText (acc r))
                      else fullResponseText (acc r))\<rparr>)"

definition applyUi :: "projectUi list \<Rightarrow> app \<Rightarrow> app" where
  "applyUi uis a =
     (case uis of
        [] \<Rightarrow> a
      | _ # _ \<Rightarrow>
          a\<lparr>activeInterpreterFile := uiActiveInterpreterFile (last uis),
            pendingProjectUpdate := Some (uiPendingProjectUpdate (last uis)),
            streamingTarget := Some (uiActiveInterpreterFile (last uis), uiStreamingCode (last uis)),
            isCodePanelVisible := True\<rparr>)"

definition applyFinal :: "env \<Rightarrow> finalInput \<Rightarrow> string \<Rightarrow> app \<Rightarrow> app" where
  "applyFinal e i cid a =
     (let results = map (\<lambda>c. if chatId c = cid then finalUpdater (dateNow e) (parseJson e) i c
                              else (c, None)) (chatHistory a)
      in emit [FinalCommit]
           (applyUi (List.map_filter snd results) (a\<lparr>chatHistory := map fst results\<rparr>)))"

definition finallyClause :: "env \<Rightarrow> bool \<Rightarrow> request \<Rightarrow> app \<Rightarrow> app" where
  "finallyClause e textAlways r a =
     (let a1 = emit [SetIsLoading False] (a\<lparr>isLoading := False\<rparr>)
      in if aborted r a1 then a1
         else applyFinal e (fromResponse textAlways r) (requestChatId r) a1)"

definition settle :: "env \<Rightarrow> bool \<Rightarrow> outcome \<times> request \<times> app \<Rightarrow> app" where
  "settle e textAlways ora =
     (case ora of (oc, r, a) \<Rightarrow> finallyClause e textAlways r (catchClause oc r a))"

subsection \<open>First copy of \<^verbatim>\<open>App\<close>\<close>

text \<open>
  \<^verbatim>\<open>handleSendMessage\<close> of the first copy.  \<open>openTurn\<close> is the part between the two
  checks and the \<^verbatim>\<open>try\<close> block; it gives \<^verbatim>\<open>currentChat\<close>, \<^verbatim>\<open>currentChatId\<close> and
  the state.  With no active session a new one is put in front of the history.  With an
  active session that is not in the history, \<^verbatim>\<open>currentChat\<close> is undefined and the read of
  its messages, before the \<^verbatim>\<open>try\<close> block, throws out of the handler.  The project of an
  interpreter request is looked up in the history the handler was created with, and a
  session that gets a new project is replaced by \<^verbatim>\<open>currentChat\<close> with that project.
\<close>

definition openTurn :: "env \<Rightarrow> string \<Rightarrow> attachment list \<Rightarrow> app \<Rightarrow> chatSession option \<times> string \<times> app" where
  "openTurn e prompt atts a =
     (let a1 = startLoading a;
          currentChatId = (case activeChatId a of None \<Rightarrow> dateNow e | Some cid \<Rightarrow> cid);
          newTurn = [uiUserMessage e prompt atts, placeholderModelMessage e];
          newChat = \<lparr>chatId = currentChatId, title = promptTitle prompt, messages = newTurn,
                     project = None\<rparr>;
          currentChat = (case activeChatId a of
                           None \<Rightarrow> Some newChat
                         | Some cid \<Rightarrow> find (\<lambda>c. chatId c = cid) (chatHistory a));
          a2 = emit [TurnAppended]
                 (case activeChatId a of
                    None \<Rightarrow> a1\<lparr>chatHistory := newChat # chatHistory a1,
                                activeChatId := Some currentChatId\<rparr>
                  | Some cid \<Rightarrow>
                      a1\<lparr>chatHistory :=
                           updateChat currentChatId
                             (\<lambda>chat. chat\<lparr>messages := messages chat @ newTurn\<rparr>) (chatHistory a1)\<rparr>);
          projectForApi = Option.bind (find (\<lambda>c. chatId c = currentChatId) (chatHistory a)) project;
          a3 = (if isCodeInterpreterToggled (tools e) \<and> projectForApi = None
                then (case currentChat of
                        None \<Rightarrow> emit [ProjectCreated] a2
                      | Some cc \<Rightarrow>
                          emit [ProjectCreated]
                            (a2\<lparr>chatHistory :=
                                 updateChat currentChatId
                                   (\<lambda>c. cc\<lparr>project := Some (projectForPrompt e prompt)\<rparr>)
                                   (chatHistory a2)\<rparr>))
                else a2)
      in (currentChat, currentChatId, a3))"

definition handleSendMessage ::
  "env \<Rightarrow> sdk \<Rightarrow> nat option \<Rightarrow> string \<Rightarrow> attachment list \<Rightarrow> app \<Rightarrow> app" where
  "handleSendMessage e s stopAt prompt atts a =
     (if (trim prompt = [] \<and> atts = []) \<or> isLoading a then a
      else if isImageToolActive (tools e) \<and> isTextToImageModel (activeBaseModel e) \<and> atts \<noteq> []
      then emit [Alert textToImageAlert] a
      else
        (case openTurn e prompt atts a of
           (None, currentChatId, a3) \<Rightarrow> emit [UnhandledRejection] a3
         | (Some currentChat, currentChatId, a3) \<Rightarrow>
             settle e True
               (dispatch e s stopAt
                  (newRequest e (isVideoModel (activeBaseModel e)) currentChatId
                     (length (controllers a)), a3))))"

subsection \<open>Second copy of \<^verbatim>\<open>App\<close>\<close>

text \<open>
  \<^verbatim>\<open>handleSendMessage\<close> of the second copy: it returns at once without an active session,
  rejects an image-edit model without attachments as well, creates the project before the
  turn is appended and titles the session by its first prompt.  \<open>openTurn2\<close> is the part
  between the checks and the \<^verbatim>\<open>try\<close> block, for the session that was found.
\<close>

definition openTurn2 :: "env \<Rightarrow> string \<Rightarrow> attachment list \<Rightarrow> string \<Rightarrow> chatSession \<Rightarrow> app \<Rightarrow> app" where
  "openTurn2 e prompt atts cid found a1 =
     (let createsProject = isCodeInterpreterToggled (tools e) \<and> project found = None;
          currentChat = (if createsProject
                         then found\<lparr>project := Some (projectForPrompt e prompt)\<rparr>
                         else found);
          a2 = (if createsProject
                then emit [ProjectCreated]
                       (a1\<lparr>chatHistory := updateChat cid (\<lambda>chat. currentChat) (chatHistory a1)\<rparr>)
                else a1);
          newTitle = (if messages currentChat = [] then promptTitle prompt else title currentChat)
      in emit [TurnAppended]
           (a2\<lparr>chatHistory :=
                updateChat cid
                  (\<lambda>chat. chat\<lparr>title := newTitle,
                                messages := messages chat @
                                  [uiUserMessage e prompt atts, placeholderModelMessage e]\<rparr>)
                  (chatHistory a2)\<rparr>))"

definition handleSendMessage2 ::
  "env \<Rightarrow> sdk \<Rightarrow> nat option \<Rightarrow> string \<Rightarrow> attachment list \<Rightarrow> app \<Rightarrow> app" where
  "handleSendMessage2 e s stopAt prompt atts a =
     (if (trim prompt = [] \<and> atts = []) \<or> isLoading a then a
      else
        (case activeChatId a of
           None \<Rightarrow> a
         | Some [] \<Rightarrow> a
         | Some (c # cs) \<Rightarrow>
            if isImageToolActive (tools e) \<and> isTextToImageModel (activeBaseModel e) \<and> atts \<noteq> []
            then emit [Alert textToImageAlert] a
            else if isImageToolActive (tools e) \<and> isImageEditModel (activeBaseModel e) \<and> atts = []
            then emit [Alert imageEditAlert] a
            else
              (case find (\<lambda>chat. chatId chat = c # cs) (chatHistory a) of
                 None \<Rightarrow> emit [UnhandledRejection] (startLoading a)
               | Some found \<Rightarrow>
                   settle e False
                     (dispatch e s stopAt
                        (newRequest e (isVideoModel2 (activeBaseModel e)) (c # cs)
                           (length (controllers a)),
                         openTurn2 e prompt atts (c # cs) found (startLoading a))))))"

section \<open>Observing a request\<close>

text \<open>
  Two notions used to state properties of a request, not part of the program.  A request
  owns its signal when the signal exists and is either already aborted or still the one
  that \<^verbatim>\<open>abortControllerRef\<close> holds.  A step from one point of a request to a later one
  advances it when it keeps the request's signal and session, only adds observations to the
  log, and leaves the signal aborted exactly when it was so before or Stop was pressed in
  between.
\<close>

definition ownsSignal :: "request \<Rightarrow> app \<Rightarrow> bool" where
  "ownsSignal r a \<longleftrightarrow>
     signal r < length (controllers a) \<and> (aborted r a \<or> abortControllerRef a = Some (signal r))"

definition advances :: "request \<Rightarrow> app \<Rightarrow> request \<Rightarrow> app \<Rightarrow> bool" where
  "advances r a r' a' \<longleftrightarrow>
     signal r' = signal r \<and> requestChatId r' = requestChatId r \<and> ownsSignal r' a' \<and>
     (\<exists>evs. log a' = log a @ evs \<and>
            set evs \<subseteq> {ChunkObserved, StreamEcho, StopPressed, ResponseObserved} \<and>
            (aborted r' a' \<longleftrightarrow> aborted r a \<or> StopPressed \<in> set evs))"

text \<open>Whether the first \<open>x\<close> of a list is followed, later in the list, by a \<open>y\<close>.\<close>

definition precedes :: "'a \<Rightarrow> 'a \<Rightarrow> 'a list \<Rightarrow> bool" where
  "precedes x y xs \<longleftrightarrow> y \<in> set (drop 1 (dropWhile (\<lambda>z. z \<noteq> x) xs))"

text \<open>The shape of the log of a request that reached the generation client.\<close>

definition requestLog :: "event list \<Rightarrow> bool" where
  "requestLog L \<longleftrightarrow>
     (\<exists>P ep evs oc.
        L = P @ [AdapterCall ep] @ evs @ outcomeEvents oc @ [SetIsLoading False] @
              (if StopPressed \<in> set evs then [] else [FinalCommit]) \<and>
        set P \<subseteq> {SetIsLoading True, TurnAppended, ProjectCreated} \<and>
        set evs \<subseteq> {ChunkObserved, StreamEcho, StopPressed, ResponseObserved} \<and>
        (oc = ThrewAbortError \<longrightarrow> StopPressed \<in> set evs))"

text \<open>The contents of the messages of every session, in order.\<close>

definition transcript :: "app \<Rightarrow> string list list" where
  "transcript a = map (\<lambda>chat. map content (messages chat)) (chatHistory a)"

text \<open>The content and the reasoning of the messages of every session, in order.\<close>

definition reasonedTranscript :: "app \<Rightarrow> (string \<times> string option) list list" where
  "reasonedTranscript a = map (\<lambda>chat. map (\<lambda>m. (content m, reasoning m)) (messages chat)) (chatHistory a)"

section \<open>Example values\<close>

text \<open>Concrete values for the instances below.\<close>

definition citation :: "string \<Rightarrow> string \<Rightarrow> groundingChunk" where
  "citation u t = \<lparr>web = Some \<lparr>uri = Some u, webTitle = Some t\<rparr>\<rparr>"

definition exampleUserMessage :: chatMessage where
  "exampleUserMessage =
     \<lparr>msgId = ''msg-user-1'', role = USER, content = ''Hello'', attachments = Some [],
      reasoning = None, isThinking = None, projectFilesUpdate = None, msgProject = None,
      groundingChunks = None\<rparr>"

definition exampleModelMessage :: chatMessage where
  "exampleModelMessage =
     \<lparr>msgId = ''msg-model-1'', role = MODEL, content = [], attachments = None,
      reasoning = Some [], isThinking = Some False, projectFilesUpdate = Some False,
      msgProject = None, groundingChunks = None\<rparr>"

definition exampleProject :: project where
  "exampleProject =
     \<lparr>projId = ''proj_1'', projName = ''New Project'', description = ''A new coding project.'',
      files = Map.empty(''index.html'' \<mapsto> Node ''index.html'' (Some ''<!DOCTYPE html>'') None)\<rparr>"

definition exampleSession :: chatSession where
  "exampleSession =
     \<lparr>chatId = ''1'', title = ''Hello'', messages = [exampleUserMessage, exampleModelMessage],
      project = None\<rparr>"

definition exampleProjectSession :: chatSession where
  "exampleProjectSession = exampleSession\<lparr>project := Some exampleProject\<rparr>"

definition exampleInput :: finalInput where
  "exampleInput =
     \<lparr>isImageRequest = False, isVideoRequest = False, isInterpreterRequest = False,
      fullResponseText = [], finalParts = [], groundingChunksAcc = []\<rparr>"

text \<open>
  \<^verbatim>\<open>JSON.parse\<close> on the two texts used below: \<^verbatim>\<open>null\<close> parses to \<^verbatim>\<open>null\<close> and
  \<^verbatim>\<open>{}\<close> to an object without properties.  No other text is parsed in the examples.
\<close>

definition exampleJsonParse :: "string \<Rightarrow> parsedResponse option" where
  "exampleJsonParse s =
     (if s = ''null'' then Some ParsedNull
      else if s = ''{}'' then Some (ParsedValue None None None)
      else None)"

definition textChunk :: "string \<Rightarrow> response" where
  "textChunk t =
     \<lparr>responseText = Some t,
      candidateParts = Some [\<lparr>partText = Some t, partInlineData = None\<rparr>],
      candidateGrounding = None\<rparr>"

definition exampleEnv :: env where
  "exampleEnv =
     \<lparr>tools = initialToggles, activeBaseModel = Some GEMINI_2_0_FLASH, useThinking = False,
      dateNow = ''1700000000000'', parseJson = exampleJsonParse,
      initialIndexHtml = ''<!DOCTYPE html>''\<rparr>"

definition exampleSdk :: sdk where
  "exampleSdk =
     \<lparr>streamOpens = True, streamChunks = [textChunk ''Hi'', textChunk '' there''],
      streamCompletes = True, contentResult = Some (textChunk ''edited''), imagesResult = Some [],
      videoPolls = 0, videoResult = None\<rparr>"

text \<open>The state after start-up with an empty history, and a state with one empty session.\<close>

definition exampleApp :: app where
  "exampleApp =
     \<lparr>isLoading = False, chatHistory = [], activeChatId = None, controllers = [],
      abortControllerRef = None, activeInterpreterFile = ''index.html'',
      pendingProjectUpdate = None, streamingTarget = None, isCodePanelVisible = False,
      log = []\<rparr>"

definition exampleApp2 :: app where
  "exampleApp2 =
     exampleApp\<lparr>chatHistory := [\<lparr>chatId = ''1'', title = ''New Chat'', messages = [], project = None\<rparr>],
                activeChatId := Some ''1''\<rparr>"

text \<open>The image tool with an image-edit model selected.\<close>

definition editEnv :: env where
  "editEnv =
     exampleEnv\<lparr>tools := handleToggleImageTool initialToggles,
                activeBaseModel := Some GEMINI_2_5_FLASH_IMAGE_PREVIEW\<rparr>"

text \<open>
  A stream that delivers the text \<^verbatim>\<open><thinking>reasoning here</thinking>visible answer\<close> in
  two chunks, and one that delivers the text \<^verbatim>\<open>{}\<close> in two chunks; the code interpreter
  switched on.
\<close>

definition thinkingSdk :: sdk where
  "thinkingSdk =
     exampleSdk\<lparr>streamChunks := [textChunk ''<thinking>reasoning here</thinking>'',
                                   textChunk ''visible answer'']\<rparr>"

definition jsonSdk :: sdk where
  "jsonSdk = exampleSdk\<lparr>streamChunks := [textChunk ''{'', textChunk ''}'']\<rparr>"

definition interpreterEnv :: env where
  "interpreterEnv = exampleEnv\<lparr>tools := handleToggleCodeInterpreter initialToggles\<rparr>"

section \<open>Properties of the tool toggles\<close>

lemma activeTools_handleToggle: "length (activeTools s) \<le> 1 \<Longrightarrow> length (activeTools (handleToggle t s)) \<le> 1"
  by (cases t)
     (auto simp: activeTools_def handleToggleCodeInterpreter_def handleToggleDeepResearch_def
        handleToggleImageTool_def handleToggleVideoTool_def Let_def split: if_splits)

lemma activeTools_toggleAll: "length (activeTools s) \<le> 1 \<Longrightarrow> length (activeTools (toggleAll ts s)) \<le> 1"
proof (induction ts arbitrary: s)
  case Nil
  then show ?case by simp
next
  case (Cons t ts)
  from Cons.prems have "length (activeTools (handleToggle t s)) \<le> 1"
    by (rule activeTools_handleToggle)
  then have "length (activeTools (toggleAll ts (handleToggle t s))) \<le> 1"
    by (rule Cons.IH)
  then show ?case by simp
qed

lemma handleToggle_enable:
  "\<not> isActive t s \<Longrightarrow> activeTools (handleToggle t s) = [t]"
  by (cases t)
     (auto simp: activeTools_def handleToggleCodeInterpreter_def handleToggleDeepResearch_def
        handleToggleImageTool_def handleToggleVideoTool_def Let_def)

text \<open>
  Claim C6.  Starting from the state in which all four tools are off, after every sequence of
  toggle operations (and so after each operation of a sequence) at most one of the four flags
  is true; and toggling a tool that is off leaves exactly that tool on.
\<close>

theorem toggle_mutual_exclusion:
  "length (activeTools (toggleAll (take k ops) initialToggles)) \<le> 1 \<and>
   (\<not> isActive t (toggleAll ops initialToggles) \<longrightarrow>
      activeTools (handleToggle t (toggleAll ops initialToggles)) = [t])"
proof
  have "length (activeTools initialToggles) \<le> 1"
    by (simp add: activeTools_def initialToggles_def)
  then show "length (activeTools (toggleAll (take k ops) initialToggles)) \<le> 1"
    by (rule activeTools_toggleAll)
  show "\<not> isActive t (toggleAll ops initialToggles) \<longrightarrow>
      activeTools (handleToggle t (toggleAll ops initialToggles)) = [t]"
    by (simp add: handleToggle_enable)
qed

theorem toggle_mutual_exclusion_witness:
  "\<not> isActive VideoTool (toggleAll [ImageTool, CodeInterpreter] initialToggles) \<and>
   activeTools (handleToggle VideoTool (toggleAll [ImageTool, CodeInterpreter] initialToggles)) = [VideoTool] \<and>
   length (activeTools (toggleAll (take 1 [ImageTool, CodeInterpreter]) initialToggles)) \<le> 1"
proof -
  have h: "\<not> isActive VideoTool (toggleAll [ImageTool, CodeInterpreter] initialToggles)"
    by (simp add: initialToggles_def handleToggleImageTool_def handleToggleCodeInterpreter_def)
  from toggle_mutual_exclusion [of 1 "[ImageTool, CodeInterpreter]" VideoTool] h
  show ?thesis by blast
qed

section \<open>Properties of the file-tree upsert\<close>

lemma getNode_Cons:
  "q \<noteq> [] \<Longrightarrow> getNode nodes (part # q) =
     (case nodes part of None \<Rightarrow> None
      | Some n \<Rightarrow> (case nodeChildren n of None \<Rightarrow> None | Some ch \<Rightarrow> getNode ch q))"
  by (cases q) (auto split: option.splits)

lemma node_rebuild: "nodeChildren m = Some ch \<Longrightarrow> Node (nodeName m) (nodeContent m) (Some ch) = m"
  by (cases m) simp

lemma updateLevel_Cons2:
  "rest \<noteq> [] \<Longrightarrow> updateLevel currentLevel (part # rest) newText =
     (case currentLevel part of
        Some m \<Rightarrow>
          (case nodeChildren m of
             None \<Rightarrow> (False, currentLevel)
           | Some ch \<Rightarrow>
               (case updateLevel ch rest newText of
                  (ok, ch') \<Rightarrow>
                    (ok, currentLevel(part \<mapsto> Node (nodeName m) (nodeContent m) (Some ch')))))
      | None \<Rightarrow>
          if part \<in> set objectPrototypeNames then (False, currentLevel)
          else (case updateLevel Map.empty rest newText of
                  (ok, ch') \<Rightarrow> (ok, currentLevel(part \<mapsto> Node part None (Some ch')))))"
  by (cases rest) (auto split: option.splits prod.splits)

lemma blockedPath_single:
  "blockedPath nodes [part] \<longleftrightarrow> (\<exists>n. nodes part = Some n \<and> nodeChildren n \<noteq> None)"
  by (auto simp: blockedPath_def strict_prefix_def prefix_Cons)

lemma strict_prefix_Cons_iff:
  "strict_prefix q (p # ps) \<longleftrightarrow> q = [] \<or> (\<exists>q'. q = p # q' \<and> strict_prefix q' ps)"
  by (cases q) auto

lemma getNode_Cons_None: "nodes part = None \<Longrightarrow> getNode nodes (part # q) = None"
  by (cases q) auto

lemma getNode_Cons_file:
  "nodes part = Some m \<Longrightarrow> nodeChildren m = None \<Longrightarrow> q \<noteq> [] \<Longrightarrow> getNode nodes (part # q) = None"
  by (simp add: getNode_Cons)

lemma getNode_Cons_dir:
  "nodes part = Some m \<Longrightarrow> nodeChildren m = Some ch \<Longrightarrow> q \<noteq> [] \<Longrightarrow>
   getNode nodes (part # q) = getNode ch q"
  by (simp add: getNode_Cons)

lemma blockedPath_Cons:
  assumes "rest \<noteq> []"
  shows "blockedPath nodes (part # rest) \<longleftrightarrow>
     (case nodes part of None \<Rightarrow> False
      | Some n \<Rightarrow> (case nodeChildren n of None \<Rightarrow> True | Some ch \<Rightarrow> blockedPath ch rest))"
proof (cases "nodes part")
  case None
  then show ?thesis
    by (auto simp: blockedPath_def strict_prefix_Cons_iff getNode_Cons_None)
next
  case (Some m)
  show ?thesis
  proof (cases "nodeChildren m")
    case None
    have "strict_prefix [part] (part # rest)" using assms by (cases rest) auto
    moreover have "getNode nodes [part] = Some m" using Some by simp
    ultimately have "blockedPath nodes (part # rest)"
      using None unfolding blockedPath_def by blast
    then show ?thesis using Some None by simp
  next
    case ch: (Some ch)
    have "blockedPath nodes (part # rest) \<longleftrightarrow> blockedPath ch rest"
    proof
      assume "blockedPath nodes (part # rest)"
      then consider (a) q n where "strict_prefix q (part # rest)" "getNode nodes q = Some n" "nodeChildren n = None"
        | (b) n where "getNode nodes (part # rest) = Some n" "nodeChildren n \<noteq> None"
        by (auto simp: blockedPath_def)
      then show "blockedPath ch rest"
      proof cases
        case a
        from a(1,2) obtain q' where q': "q = part # q'" "strict_prefix q' rest"
          by (auto simp: strict_prefix_Cons_iff)
        show ?thesis
        proof (cases "q' = []")
          case True
          with a q' Some ch show ?thesis by simp
        next
          case False
          with a q' Some ch have "getNode ch q' = Some n" by (simp add: getNode_Cons_dir)
          with q' a(3) show ?thesis by (auto simp: blockedPath_def)
        qed
      next
        case b
        with Some ch assms have "getNode ch rest = Some n" by (simp add: getNode_Cons_dir)
        with b show ?thesis by (auto simp: blockedPath_def)
      qed
    next
      assume "blockedPath ch rest"
      then consider (a) q n where "strict_prefix q rest" "getNode ch q = Some n" "nodeChildren n = None"
        | (b) n where "getNode ch rest = Some n" "nodeChildren n \<noteq> None"
        by (auto simp: blockedPath_def)
      then show "blockedPath nodes (part # rest)"
      proof cases
        case a
        then have "q \<noteq> []" by auto
        with a Some ch have "getNode nodes (part # q) = Some n" by (simp add: getNode_Cons_dir)
        moreover from a have "strict_prefix (part # q) (part # rest)" by simp
        ultimately show ?thesis using a(3) unfolding blockedPath_def by blast
      next
        case b
        with Some ch assms have "getNode nodes (part # rest) = Some n" by (simp add: getNode_Cons_dir)
        with b show ?thesis unfolding blockedPath_def by blast
      qed
    qed
    then show ?thesis using Some ch by simp
  qed
qed

lemma updateLevel_blocked:
  "blockedPath nodes parts \<Longrightarrow> updateLevel nodes parts newText = (False, nodes)"
proof (induction parts arbitrary: nodes)
  case Nil
  then show ?case by (simp add: blockedPath_def)
next
  case (Cons part rest)
  show ?case
  proof (cases "rest = []")
    case True
    with Cons.prems show ?thesis by (auto simp: blockedPath_single)
  next
    case False
    from Cons.prems False obtain m where m: "nodes part = Some m"
      by (auto simp: blockedPath_Cons split: option.splits)
    show ?thesis
    proof (cases "nodeChildren m")
      case None
      then show ?thesis using m False by (simp add: updateLevel_Cons2)
    next
      case (Some ch)
      with Cons.prems m False have "blockedPath ch rest" by (simp add: blockedPath_Cons)
      then have "updateLevel ch rest newText = (False, ch)" by (rule Cons.IH)
      then show ?thesis using m Some False
        by (simp add: updateLevel_Cons2 node_rebuild fun_upd_idem)
    qed
  qed
qed

lemma getNode_head_cong: "nodes' p = nodes p \<Longrightarrow> getNode nodes' (p # q) = getNode nodes (p # q)"
  by (cases q) auto

lemma getNode_empty: "getNode Map.empty q = None"
  by (cases "(Map.empty :: files, q)" rule: getNode.cases) auto

lemma updateLevel_other_keys:
  assumes "updateLevel nodes parts newText = (ok, nodes')" and "parts \<noteq> []" and "p \<noteq> hd parts"
  shows "nodes' p = nodes p"
proof -
  from assms(2) obtain part rest where parts: "parts = part # rest" by (cases parts) auto
  show ?thesis
  proof (cases "rest = []")
    case True
    with assms parts show ?thesis by (auto split: option.splits if_splits)
  next
    case False
    with assms parts show ?thesis
      by (auto simp: updateLevel_Cons2 split: option.splits if_splits prod.splits)
  qed
qed

text \<open>
  Whatever the call returns, a sequence of segments that is not a prefix of the path resolves
  after the call to what it resolved to before.
\<close>

lemma updateLevel_unchanged_off_path:
  "updateLevel nodes parts newText = (ok, nodes') \<Longrightarrow> q \<noteq> [] \<Longrightarrow> \<not> prefix q parts \<Longrightarrow>
   getNode nodes' q = getNode nodes q"
proof (induction parts arbitrary: nodes ok nodes' q)
  case Nil
  then show ?case by simp
next
  case (Cons part rest)
  from Cons.prems(2) obtain p q' where q: "q = p # q'" by (cases q) auto
  show ?case
  proof (cases "p = part")
    case False
    with Cons.prems(1) have "nodes' p = nodes p"
      using updateLevel_other_keys[of nodes "part # rest" newText ok nodes' p] by simp
    then show ?thesis unfolding q by (rule getNode_head_cong)
  next
    case True
    show ?thesis
    proof (cases "rest = []")
      case last: True
      with Cons.prems(3) q True have q': "q' \<noteq> []" by auto
      show ?thesis
      proof (cases "nodes part")
        case None
        show ?thesis
        proof (cases "part \<in> set objectPrototypeNames")
          case inh: True
          with None last Cons.prems(1) have "nodes' = nodes" by simp
          then show ?thesis by simp
        next
          case own: False
          with None last Cons.prems(1) have "nodes' part = Some (Node part (Some newText) None)"
            by auto
          with None True q q' show ?thesis
            by (simp add: getNode_Cons_None getNode_Cons_file)
        qed
      next
        case (Some m)
        show ?thesis
        proof (cases "nodeChildren m")
          case None
          with Some last Cons.prems(1) have "nodes' part = Some (Node (nodeName m) (Some newText) None)"
            by auto
          with None Some True q q' show ?thesis
            by (simp add: getNode_Cons_file)
        next
          case ch: (Some ch)
          with Some last Cons.prems(1) have "nodes' = nodes" by auto
          then show ?thesis by simp
        qed
      qed
    next
      case more: False
      with Cons.prems(3) q True have q': "q' \<noteq> []" "\<not> prefix q' rest"
        by (auto simp: prefix_Cons)
      show ?thesis
      proof (cases "nodes part")
        case None
        show ?thesis
        proof (cases "part \<in> set objectPrototypeNames")
          case inh: True
          with None more Cons.prems(1) have "nodes' = nodes" by (simp add: updateLevel_Cons2)
          then show ?thesis by simp
        next
          case own: False
          obtain ok1 ch' where u: "updateLevel Map.empty rest newText = (ok1, ch')"
            by (cases "updateLevel Map.empty rest newText") auto
          with None own more Cons.prems(1) have n': "nodes' part = Some (Node part None (Some ch'))"
            by (auto simp: updateLevel_Cons2)
          have "getNode ch' q' = getNode Map.empty q'" using u q' by (rule Cons.IH)
          with n' None True q q' show ?thesis
            by (simp add: getNode_Cons_None getNode_Cons_dir getNode_empty)
        qed
      next
        case (Some m)
        show ?thesis
        proof (cases "nodeChildren m")
          case None
          with Some more Cons.prems(1) have "nodes' = nodes" by (simp add: updateLevel_Cons2)
          then show ?thesis by simp
        next
          case ch: (Some ch)
          obtain ok1 ch' where u: "updateLevel ch rest newText = (ok1, ch')"
            by (cases "updateLevel ch rest newText") auto
          with Some ch more Cons.prems(1)
          have n': "nodes' part = Some (Node (nodeName m) (nodeContent m) (Some ch'))"
            by (auto simp: updateLevel_Cons2)
          have "getNode ch' q' = getNode ch q'" using u q' by (rule Cons.IH)
          with n' Some ch True q q' show ?thesis
            by (simp add: getNode_Cons_dir)
        qed
      qed
    qed
  qed
qed

text \<open>
  For a path none of whose segments names an inherited member, a successful call leaves a
  file node with the new content at the path and directories at its proper prefixes.
\<close>

lemma updateLevel_target:
  "updateLevel nodes parts newText = (True, nodes') \<Longrightarrow> parts \<noteq> [] \<Longrightarrow>
   set parts \<inter> set objectPrototypeNames = {} \<Longrightarrow>
   getNode nodes' parts =
     Some (Node (case getNode nodes parts of Some n \<Rightarrow> nodeName n | None \<Rightarrow> last parts)
                (Some newText) None)"
proof (induction parts arbitrary: nodes nodes')
  case Nil
  then show ?case by simp
next
  case (Cons part rest)
  from Cons.prems(3) have own: "part \<notin> set objectPrototypeNames"
    and ownr: "set rest \<inter> set objectPrototypeNames = {}" by auto
  show ?case
  proof (cases "rest = []")
    case True
    with Cons.prems(1) own show ?thesis by (auto split: option.splits if_splits)
  next
    case more: False
    show ?thesis
    proof (cases "nodes part")
      case None
      obtain ok1 ch' where u: "updateLevel Map.empty rest newText = (ok1, ch')"
        by (cases "updateLevel Map.empty rest newText") auto
      with None own more Cons.prems(1) have n': "nodes' part = Some (Node part None (Some ch'))"
        and ok1: "ok1 = True"
        by (auto simp: updateLevel_Cons2)
      have "getNode ch' rest =
         Some (Node (case getNode Map.empty rest of Some n \<Rightarrow> nodeName n | None \<Rightarrow> last rest)
                  (Some newText) None)"
        using u[unfolded ok1] more ownr by (rule Cons.IH)
      with n' None more show ?thesis
        by (auto simp: getNode_Cons_None getNode_Cons_dir getNode_empty split: option.splits)
    next
      case (Some m)
      show ?thesis
      proof (cases "nodeChildren m")
        case None
        with Some more Cons.prems(1) show ?thesis by (simp add: updateLevel_Cons2)
      next
        case ch: (Some ch)
        obtain ok1 ch' where u: "updateLevel ch rest newText = (ok1, ch')"
          by (cases "updateLevel ch rest newText") auto
        with Some ch more Cons.prems(1)
        have n': "nodes' part = Some (Node (nodeName m) (nodeContent m) (Some ch'))"
          and ok1: "ok1 = True"
          by (auto simp: updateLevel_Cons2)
        have "getNode ch' rest =
           Some (Node (case getNode ch rest of Some n \<Rightarrow> nodeName n | None \<Rightarrow> last rest)
                    (Some newText) None)"
          using u[unfolded ok1] more ownr by (rule Cons.IH)
        with n' Some ch more show ?thesis
          by (auto simp: getNode_Cons_dir split: option.splits)
      qed
    qed
  qed
qed

lemma updateLevel_directories:
  "updateLevel nodes parts newText = (True, nodes') \<Longrightarrow> q \<noteq> [] \<Longrightarrow> strict_prefix q parts \<Longrightarrow>
   set parts \<inter> set objectPrototypeNames = {} \<Longrightarrow>
   \<exists>ch. getNode nodes' q =
     Some (Node (case getNode nodes q of Some n \<Rightarrow> nodeName n | None \<Rightarrow> last q)
                (case getNode nodes q of Some n \<Rightarrow> nodeContent n | None \<Rightarrow> None)
                (Some ch))"
proof (induction parts arbitrary: nodes nodes' q)
  case Nil
  then show ?case by simp
next
  case (Cons part rest)
  from Cons.prems(4) have own: "part \<notin> set objectPrototypeNames"
    and ownr: "set rest \<inter> set objectPrototypeNames = {}" by auto
  from Cons.prems(2,3) obtain q' where q: "q = part # q'"
    and q': "q' = [] \<or> (q' \<noteq> [] \<and> strict_prefix q' rest)"
    by (auto simp: strict_prefix_Cons_iff)
  from Cons.prems(3) q have more: "rest \<noteq> []" by auto
  show ?case
  proof (cases "nodes part")
    case None
    obtain ok1 ch' where u: "updateLevel Map.empty rest newText = (ok1, ch')"
      by (cases "updateLevel Map.empty rest newText") auto
    with None own more Cons.prems(1) have n': "nodes' part = Some (Node part None (Some ch'))"
      and ok1: "ok1 = True"
      by (auto simp: updateLevel_Cons2)
    show ?thesis
    proof (cases "q' = []")
      case True
      with q n' None show ?thesis by simp
    next
      case False
      with q' have sp: "strict_prefix q' rest" by simp
      have "\<exists>ch. getNode ch' q' =
         Some (Node (case getNode Map.empty q' of Some n \<Rightarrow> nodeName n | None \<Rightarrow> last q')
                (case getNode Map.empty q' of Some n \<Rightarrow> nodeContent n | None \<Rightarrow> None)
                (Some ch))"
        using u[unfolded ok1] False sp ownr by (rule Cons.IH)
      with n' None q False show ?thesis
        by (auto simp: getNode_Cons_None getNode_Cons_dir getNode_empty split: option.splits)
    qed
  next
    case (Some m)
    show ?thesis
    proof (cases "nodeChildren m")
      case None
      with Some more Cons.prems(1) show ?thesis by (simp add: updateLevel_Cons2)
    next
      case ch: (Some ch)
      obtain ok1 ch' where u: "updateLevel ch rest newText = (ok1, ch')"
        by (cases "updateLevel ch rest newText") auto
      with Some ch more Cons.prems(1)
      have n': "nodes' part = Some (Node (nodeName m) (nodeContent m) (Some ch'))"
        and ok1: "ok1 = True"
        by (auto simp: updateLevel_Cons2)
      show ?thesis
      proof (cases "q' = []")
        case True
        with q n' Some show ?thesis by simp
      next
        case False
        with q' have sp: "strict_prefix q' rest" by simp
        have "\<exists>c. getNode ch' q' =
           Some (Node (case getNode ch q' of Some n \<Rightarrow> nodeName n | None \<Rightarrow> last q')
                  (case getNode ch q' of Some n \<Rightarrow> nodeContent n | None \<Rightarrow> None)
                  (Some c))"
          using u[unfolded ok1] False sp ownr by (rule Cons.IH)
        with n' Some ch q False show ?thesis
          by (auto simp: getNode_Cons_dir split: option.splits)
      qed
    qed
  qed
qed

lemma split_nonempty: "split sep s \<noteq> []"
  by (cases s) (auto split: list.splits)

text \<open>
  Claim C4.  When a proper prefix of the path resolves to an existing node without a
  \<^verbatim>\<open>children\<close> mapping, or the whole path resolves to an existing directory node,
  \<^verbatim>\<open>findAndUpdateFile\<close> returns \<^verbatim>\<open>false\<close> and the tree after the call is the tree
  before it.  The function has no failing operation: every property read is on a value that
  was found at that point, an own node or an inherited member, so the model is total and has
  no error result.
\<close>

theorem findAndUpdateFile_blocked_unchanged:
  "blockedPath nodes (split (CHR ''/'') path) \<Longrightarrow> findAndUpdateFile nodes path newText = (False, nodes)"
  unfolding findAndUpdateFile_def by (rule updateLevel_blocked)

theorem findAndUpdateFile_blocked_unchanged_witness:
  "blockedPath (Map.empty(''a'' \<mapsto> Node ''a'' (Some ''old'') None)) (split (CHR ''/'') ''a/b'') \<and>
   findAndUpdateFile (Map.empty(''a'' \<mapsto> Node ''a'' (Some ''old'') None)) ''a/b'' ''new'' =
     (False, Map.empty(''a'' \<mapsto> Node ''a'' (Some ''old'') None))"
proof -
  have s: "split (CHR ''/'') ''a/b'' = [''a'', ''b'']" by simp
  have "strict_prefix [''a''] [''a'', ''b'']" by simp
  moreover have "getNode (Map.empty(''a'' \<mapsto> Node ''a'' (Some ''old'') None)) [''a''] =
      Some (Node ''a'' (Some ''old'') None)" by simp
  ultimately have h: "blockedPath (Map.empty(''a'' \<mapsto> Node ''a'' (Some ''old'') None)) (split (CHR ''/'') ''a/b'')"
    unfolding blockedPath_def s by (metis node.sel(3))
  from h findAndUpdateFile_blocked_unchanged [OF h, of "''new''"] show ?thesis by blast
qed

text \<open>
  Of claim C10 the code keeps this much.  When \<^verbatim>\<open>findAndUpdateFile\<close> returns \<^verbatim>\<open>true\<close>
  for a path none of whose segments names a member inherited from the object prototype, the
  path resolves in the new tree to a file node with the given content (keeping the name of a
  node that was there, else named by the last segment), and every proper prefix of the path
  resolves to a directory that keeps the name and content of the node that was there, or is
  a fresh directory named by its segment.  For every path, every sequence of segments that is
  not a prefix of the path resolves to the same node, with the same subtree, as before.
\<close>

lemma findAndUpdateFile_frame_plain_names:
  assumes "findAndUpdateFile nodes path newText = (True, nodes')"
    and "set (split (CHR ''/'') path) \<inter> set objectPrototypeNames = {}"
  shows "getNode nodes' (split (CHR ''/'') path) =
           Some (Node (case getNode nodes (split (CHR ''/'') path) of
                         Some n \<Rightarrow> nodeName n | None \<Rightarrow> last (split (CHR ''/'') path))
                      (Some newText) None) \<and>
         (\<forall>q. q \<noteq> [] \<and> strict_prefix q (split (CHR ''/'') path) \<longrightarrow>
            (\<exists>ch. getNode nodes' q =
               Some (Node (case getNode nodes q of Some n \<Rightarrow> nodeName n | None \<Rightarrow> last q)
                          (case getNode nodes q of Some n \<Rightarrow> nodeContent n | None \<Rightarrow> None)
                          (Some ch))))"
proof -
  from assms(1) have u: "updateLevel nodes (split (CHR ''/'') path) newText = (True, nodes')"
    by (simp add: findAndUpdateFile_def)
  show ?thesis
    using updateLevel_target [OF u split_nonempty assms(2)] updateLevel_directories [OF u _ _ assms(2)]
    by blast
qed

lemma findAndUpdateFile_off_path:
  assumes "findAndUpdateFile nodes path newText = (ok, nodes')"
    and "q \<noteq> []" and "\<not> prefix q (split (CHR ''/'') path)"
  shows "getNode nodes' q = getNode nodes q"
  using assms updateLevel_unchanged_off_path unfolding findAndUpdateFile_def by blast

lemma findAndUpdateFile_example:
  "findAndUpdateFile (Map.empty(''index.html'' \<mapsto> Node ''index.html'' (Some ''old'') None)) ''src/a'' ''new'' =
     (True, (Map.empty(''index.html'' \<mapsto> Node ''index.html'' (Some ''old'') None))
              (''src'' \<mapsto> Node ''src'' None (Some (Map.empty(''a'' \<mapsto> Node ''a'' (Some ''new'') None)))))"
  by (simp add: findAndUpdateFile_def objectPrototypeNames_def)

text \<open>
  Claim C10 fails for a path whose last segment names a member that every object inherits.
  On the empty tree and the path \<^verbatim>\<open>constructor\<close> the call returns \<^verbatim>\<open>true\<close>, and the tree
  after it is still empty: the path resolves to no node, where the claim has a file node with
  the given content.  The same holds below an existing directory.
\<close>

theorem upsert_inherited_name_reports_success:
  "findAndUpdateFile Map.empty ''constructor'' ''c'' = (True, Map.empty) \<and>
   getNode (snd (findAndUpdateFile Map.empty ''constructor'' ''c'')) (split (CHR ''/'') ''constructor'') = None \<and>
   findAndUpdateFile (Map.empty(''src'' \<mapsto> Node ''src'' None (Some Map.empty))) ''src/toString'' ''c'' =
     (True, Map.empty(''src'' \<mapsto> Node ''src'' None (Some Map.empty)))"
  by (simp add: findAndUpdateFile_def objectPrototypeNames_def fun_upd_idem)

text \<open>
  An inherited member met before the last segment makes the call return \<^verbatim>\<open>false\<close>, after
  the directories before it have been created.
\<close>

lemma upsert_below_inherited_name_fails:
  "findAndUpdateFile Map.empty ''__proto__/x'' ''c'' = (False, Map.empty) \<and>
   findAndUpdateFile Map.empty ''a/constructor/b'' ''c'' =
     (False, Map.empty(''a'' \<mapsto> Node ''a'' None (Some Map.empty)))"
  by (simp add: findAndUpdateFile_def objectPrototypeNames_def)

section \<open>Properties of the citation list\<close>

lemma newMap_snoc: "newMap (es @ [(k, v)]) = mapSet (newMap es) k v"
  by (simp add: newMap_def)

lemma mapSet_keys:
  "map fst (mapSet m k v) = (if k \<in> set (map fst m) then map fst m else map fst m @ [k])"
  by (induction m) force+

lemma map_of_mapSet: "map_of (mapSet m k v) = (map_of m)(k \<mapsto> v)"
  by (induction m) (auto simp: fun_eq_iff)

lemma firstOccurrences_snoc:
  "firstOccurrences (xs @ [x]) = (if x \<in> set xs then firstOccurrences xs else firstOccurrences xs @ [x])"
  by (simp add: firstOccurrences_def)

lemma distinct_firstOccurrences: "distinct (firstOccurrences xs)"
  by (simp add: firstOccurrences_def)

lemma set_firstOccurrences: "set (firstOccurrences xs) = set xs"
  by (simp add: firstOccurrences_def)

lemma newMap_keys: "map fst (newMap es) = firstOccurrences (map fst es)"
proof (induction es rule: rev_induct)
  case Nil
  then show ?case by (simp add: newMap_def firstOccurrences_def)
next
  case (snoc e es)
  obtain k v where e: "e = (k, v)" by (cases e)
  have "set (map fst (newMap es)) = set (map fst es)"
    by (simp add: snoc.IH set_firstOccurrences)
  then show ?case
    unfolding e newMap_snoc by (simp add: mapSet_keys snoc.IH firstOccurrences_snoc)
qed

lemma newMap_lookup: "map_of (newMap es) = map_of (rev es)"
proof (induction es rule: rev_induct)
  case Nil
  then show ?case by (simp add: newMap_def)
next
  case (snoc e es)
  obtain k v where e: "e = (k, v)" by (cases e)
  show ?case unfolding e newMap_snoc by (simp add: map_of_mapSet snoc.IH)
qed

lemma values_by_keys:
  "distinct (map fst m) \<Longrightarrow> map snd m = map (\<lambda>k. the (map_of m k)) (map fst m)"
proof (induction m)
  case Nil
  then show ?case by simp
next
  case (Cons e m)
  obtain k v where e: "e = (k, v)" by (cases e)
  from Cons.prems e have k: "k \<notin> fst ` set m" and d: "distinct (map fst m)" by auto
  have "map (\<lambda>k'. the (map_of ((k, v) # m) k')) (map fst m) = map (\<lambda>k'. the (map_of m k')) (map fst m)"
    using k by (intro map_cong) auto
  with Cons.IH[OF d] show ?case unfolding e by simp
qed

lemma map_of_rev_tagged:
  "map_of (rev (map (\<lambda>g. (f g, g)) gs)) k =
     (if filter (\<lambda>g. f g = k) gs = [] then None else Some (last (filter (\<lambda>g. f g = k) gs)))"
  by (induction gs rule: rev_induct) auto

lemma mapValues_newMap:
  "mapValues (newMap (map (\<lambda>g. (f g, g)) gs)) =
     map (\<lambda>k. last (filter (\<lambda>g. f g = k) gs)) (firstOccurrences (map f gs))"
proof -
  let ?es = "map (\<lambda>g. (f g, g)) gs"
  have keys: "map fst (newMap ?es) = firstOccurrences (map f gs)"
    by (simp add: newMap_keys comp_def)
  then have "distinct (map fst (newMap ?es))" by (simp add: distinct_firstOccurrences)
  then have "map snd (newMap ?es) = map (\<lambda>k. the (map_of (newMap ?es) k)) (map fst (newMap ?es))"
    by (rule values_by_keys)
  also have "\<dots> = map (\<lambda>k. the (map_of (rev ?es) k)) (firstOccurrences (map f gs))"
    by (simp add: keys newMap_lookup)
  also have "\<dots> = map (\<lambda>k. last (filter (\<lambda>g. f g = k) gs)) (firstOccurrences (map f gs))"
  proof (rule map_cong[OF refl])
    fix k assume "k \<in> set (firstOccurrences (map f gs))"
    then have "k \<in> f ` set gs" by (simp add: set_firstOccurrences)
    then have "filter (\<lambda>g. f g = k) gs \<noteq> []" by (auto simp: filter_empty_conv)
    then show "the (map_of (rev ?es) k) = last (filter (\<lambda>g. f g = k) gs)"
      by (simp add: map_of_rev_tagged)
  qed
  finally show ?thesis by (simp add: mapValues_def)
qed

lemma hasUri_usableKey: "hasUri g \<longleftrightarrow> usableKey (chunkUri g)"
  by (auto simp: hasUri_def usableKey_def chunkUri_def split: option.splits list.splits)

lemma uniqueChunks_dedupLastWins: "uniqueChunks gs = dedupLastWins gs"
proof -
  have "filter hasUri (map (\<lambda>k. last (filter (\<lambda>g. chunkUri g = k) gs)) (firstOccurrences (map chunkUri gs)))
      = map (\<lambda>k. last (filter (\<lambda>g. chunkUri g = k) gs)) (filter usableKey (firstOccurrences (map chunkUri gs)))"
    unfolding filter_map
  proof (rule arg_cong[where f="map _"], rule filter_cong[OF refl])
    fix k assume "k \<in> set (firstOccurrences (map chunkUri gs))"
    then have "k \<in> chunkUri ` set gs" by (simp add: set_firstOccurrences)
    then have ne: "filter (\<lambda>g. chunkUri g = k) gs \<noteq> []" by (auto simp: filter_empty_conv)
    from last_in_set[OF ne] have "chunkUri (last (filter (\<lambda>g. chunkUri g = k) gs)) = k" by simp
    then show "(hasUri \<circ> (\<lambda>k. last (filter (\<lambda>g. chunkUri g = k) gs))) k = usableKey k"
      by (simp add: hasUri_usableKey)
  qed
  then show ?thesis by (simp add: uniqueChunks_def dedupLastWins_def mapValues_newMap)
qed

section \<open>Properties of the thinking block\<close>

lemma splitAtFirst_Some: "splitAtFirst sub s = Some (b, a) \<Longrightarrow> s = b @ sub @ a"
proof (induction s arbitrary: b)
  case Nil
  then show ?case by (simp split: if_splits)
next
  case (Cons c cs)
  show ?case
  proof (cases "prefix sub (c # cs)")
    case True
    with Cons.prems have "b = []" "a = drop (length sub) (c # cs)" by auto
    moreover from True have "c # cs = sub @ drop (length sub) (c # cs)"
      by (auto simp: prefix_def)
    ultimately show ?thesis by simp
  next
    case False
    with Cons.prems obtain b' where "splitAtFirst sub cs = Some (b', a)" "b = c # b'"
      by (auto split: option.splits)
    with Cons.IH show ?thesis by simp
  qed
qed

lemma splitAtFirst_None: "splitAtFirst sub s = None \<longleftrightarrow> \<not> sublist sub s"
proof (induction s)
  case Nil
  then show ?case by simp
next
  case (Cons c cs)
  show ?case
  proof (cases "prefix sub (c # cs)")
    case True
    then show ?thesis by (auto simp: sublist_Cons_right)
  next
    case False
    then show ?thesis using Cons.IH
      by (auto simp: sublist_Cons_right split: option.splits)
  qed
qed

lemma splitAtFirst_leftmost:
  "splitAtFirst sub s = Some (b, a) \<Longrightarrow> s = p @ sub @ q \<Longrightarrow> length b \<le> length p"
proof (induction s arbitrary: b p)
  case Nil
  then show ?case by (simp split: if_splits)
next
  case (Cons c cs)
  show ?case
  proof (cases "prefix sub (c # cs)")
    case True
    with Cons.prems(1) have "b = []" by simp
    then show ?thesis by simp
  next
    case False
    with Cons.prems(1) obtain b' where b': "splitAtFirst sub cs = Some (b', a)" "b = c # b'"
      by (auto split: option.splits)
    from False Cons.prems(2) have "p \<noteq> []" by (auto simp: prefix_def)
    with Cons.prems(2) obtain p' where p': "p = c # p'" "cs = p' @ sub @ q"
      by (cases p) auto
    from Cons.IH[OF b'(1) p'(2)] b'(2) p'(1) show ?thesis by simp
  qed
qed

lemma splitAtFirst_rest_suffix:
  assumes "splitAtFirst sub s = Some (b, a)" "s = p @ sub @ q"
  shows "suffix q a"
proof -
  from assms have le: "length b \<le> length p" by (rule splitAtFirst_leftmost)
  from assms(1) have s: "s = b @ sub @ a" by (rule splitAtFirst_Some)
  have "a = drop (length b + length sub) s" using s by simp
  moreover have "q = drop (length p + length sub) s" using assms(2) by simp
  ultimately have "q = drop (length p - length b) a"
    using le by (simp add: add.commute)
  then show ?thesis by (metis suffix_drop)
qed

lemma splitAtFirst_first:
  assumes "splitAtFirst sub s = Some (b, a)" "sub \<noteq> []"
  shows "\<not> sublist sub (b @ butlast sub)"
proof
  assume "sublist sub (b @ butlast sub)"
  then obtain p q where pq: "b @ butlast sub = p @ sub @ q" by (auto simp: sublist_def)
  from assms(1) have "s = b @ sub @ a" by (rule splitAtFirst_Some)
  then have "s = (b @ butlast sub) @ [last sub] @ a" using assms(2) by simp
  then have "s = p @ sub @ (q @ [last sub] @ a)" unfolding pq by simp
  with assms(1) have "length b \<le> length p" by (rule splitAtFirst_leftmost)
  moreover from pq have "length b + length (butlast sub) = length p + length sub + length q"
    by (metis length_append add.assoc)
  moreover have "length (butlast sub) < length sub" using assms(2) by (cases sub) auto
  ultimately show False by linarith
qed

lemma thinkingMatch_None:
  "thinkingMatch s = None \<longleftrightarrow> \<not> (\<exists>inner. sublist (''<thinking>'' @ inner @ ''</thinking>'') s)"
proof
  assume n: "thinkingMatch s = None"
  show "\<not> (\<exists>inner. sublist (''<thinking>'' @ inner @ ''</thinking>'') s)"
  proof
    assume "\<exists>inner. sublist (''<thinking>'' @ inner @ ''</thinking>'') s"
    then obtain inner p q where s: "s = p @ (''<thinking>'' @ inner @ ''</thinking>'') @ q"
      by (auto simp: sublist_def)
    then have "sublist ''<thinking>'' s" unfolding sublist_def by (metis append.assoc)
    then obtain b rest where br: "splitAtFirst ''<thinking>'' s = Some (b, rest)"
      using splitAtFirst_None[of "''<thinking>''" s] by (cases "splitAtFirst ''<thinking>'' s") auto
    from s have "s = p @ ''<thinking>'' @ (inner @ ''</thinking>'' @ q)" by simp
    with br have "suffix (inner @ ''</thinking>'' @ q) rest" by (rule splitAtFirst_rest_suffix)
    then obtain z where "rest = z @ inner @ ''</thinking>'' @ q" by (auto simp: suffix_def)
    then have "rest = (z @ inner) @ ''</thinking>'' @ q" by simp
    then have "sublist ''</thinking>'' rest" unfolding sublist_def by blast
    then have "splitAtFirst ''</thinking>'' rest \<noteq> None" by (simp add: splitAtFirst_None)
    with n br show False by (auto simp: thinkingMatch_def split: option.splits)
  qed
next
  assume a: "\<not> (\<exists>inner. sublist (''<thinking>'' @ inner @ ''</thinking>'') s)"
  show "thinkingMatch s = None"
  proof (rule ccontr)
    assume "thinkingMatch s \<noteq> None"
    then obtain b rest inner after where 1: "splitAtFirst ''<thinking>'' s = Some (b, rest)"
      and 2: "splitAtFirst ''</thinking>'' rest = Some (inner, after)"
      by (auto simp: thinkingMatch_def split: option.splits)
    from splitAtFirst_Some[OF 1] splitAtFirst_Some[OF 2]
    have "s = b @ (''<thinking>'' @ inner @ ''</thinking>'') @ after" by simp
    then have "sublist (''<thinking>'' @ inner @ ''</thinking>'') s" unfolding sublist_def by blast
    with a show False by blast
  qed
qed

lemma thinkingMatch_Some:
  assumes "thinkingMatch s = Some (b, inner, after)"
  shows "s = b @ ''<thinking>'' @ inner @ ''</thinking>'' @ after \<and>
         \<not> sublist ''<thinking>'' (b @ butlast ''<thinking>'') \<and>
         \<not> sublist ''</thinking>'' (inner @ butlast ''</thinking>'')"
proof -
  from assms obtain rest where 1: "splitAtFirst ''<thinking>'' s = Some (b, rest)"
      and 2: "splitAtFirst ''</thinking>'' rest = Some (inner, after)"
    by (auto simp: thinkingMatch_def split: option.splits)
  from splitAtFirst_Some[OF 1] splitAtFirst_Some[OF 2]
  have "s = b @ ''<thinking>'' @ inner @ ''</thinking>'' @ after" by simp
  moreover have "\<not> sublist ''<thinking>'' (b @ butlast ''<thinking>'')"
    using splitAtFirst_first[OF 1] by simp
  moreover have "\<not> sublist ''</thinking>'' (inner @ butlast ''</thinking>'')"
    using splitAtFirst_first[OF 2] by simp
  ultimately show ?thesis by blast
qed

lemma finalizeChat_spec:
  "(if \<exists>inner. sublist (''<thinking>'' @ inner @ ''</thinking>'') s
    then \<exists>before inner after.
           s = before @ ''<thinking>'' @ inner @ ''</thinking>'' @ after \<and>
           \<not> sublist ''<thinking>'' (before @ butlast ''<thinking>'') \<and>
           \<not> sublist ''</thinking>'' (inner @ butlast ''</thinking>'') \<and>
           reasoning (finalizeChat s m) = Some (trim inner) \<and>
           content (finalizeChat s m) = trim (before @ after)
    else content (finalizeChat s m) = s \<and> reasoning (finalizeChat s m) = reasoning m)"
proof (cases "thinkingMatch s")
  case None
  then show ?thesis using thinkingMatch_None[of s] by (simp add: finalizeChat_def)
next
  case (Some t)
  obtain b inner after where t: "t = (b, inner, after)" by (cases t)
  from Some have ex: "\<exists>inner. sublist (''<thinking>'' @ inner @ ''</thinking>'') s"
    using thinkingMatch_None[of s] by auto
  from thinkingMatch_Some[OF Some[unfolded t]] Some t ex show ?thesis
    by (auto simp: finalizeChat_def)
qed

lemma example_thinking:
  "finalizeChat ''<thinking>reasoning here</thinking>visible answer'' m =
     m\<lparr>reasoning := Some ''reasoning here'', content := ''visible answer''\<rparr>"
  by (simp add: finalizeChat_def thinkingMatch_def trim_def isWhiteSpace_def)

text \<open>
  \<open>trim\<close> removes white space at both ends and nothing else.
\<close>

lemma trim_spec:
  "\<exists>l r. s = l @ trim s @ r \<and> (\<forall>c \<in> set l. isWhiteSpace c) \<and> (\<forall>c \<in> set r. isWhiteSpace c) \<and>
         (trim s \<noteq> [] \<longrightarrow> \<not> isWhiteSpace (hd (trim s)) \<and> \<not> isWhiteSpace (last (trim s)))"
proof -
  let ?t = "dropWhile isWhiteSpace s"
  let ?l = "takeWhile isWhiteSpace s"
  let ?r = "rev (takeWhile isWhiteSpace (rev ?t))"
  have t: "trim s = rev (dropWhile isWhiteSpace (rev ?t))" by (simp add: trim_def)
  have "rev ?t = takeWhile isWhiteSpace (rev ?t) @ dropWhile isWhiteSpace (rev ?t)" by simp
  then have "?t = rev (dropWhile isWhiteSpace (rev ?t)) @ ?r"
    by (metis rev_append rev_rev_ident)
  then have "?t = trim s @ ?r" by (simp only: t)
  moreover have "s = ?l @ ?t" by simp
  ultimately have 1: "s = ?l @ trim s @ ?r" by metis
  have 2: "\<forall>c \<in> set ?l. isWhiteSpace c" by (meson set_takeWhileD)
  have 3: "\<forall>c \<in> set ?r. isWhiteSpace c" using set_takeWhileD by fastforce
  have 4: "trim s \<noteq> [] \<longrightarrow> \<not> isWhiteSpace (last (trim s))"
    unfolding t by (simp add: last_rev hd_dropWhile)
  have 5: "trim s \<noteq> [] \<longrightarrow> \<not> isWhiteSpace (hd (trim s))"
  proof
    assume ne: "trim s \<noteq> []"
    with \<open>?t = trim s @ ?r\<close> have "hd ?t = hd (trim s)" "?t \<noteq> []"
      by (metis hd_append2, metis append_is_Nil_conv)
    then show "\<not> isWhiteSpace (hd (trim s))" by (metis hd_dropWhile)
  qed
  from 1 2 3 4 5 show ?thesis by blast
qed

section \<open>Properties of the final updater\<close>

lemma finalizedMessage_eq:
  assumes "messages prev \<noteq> []" and "role (last (messages prev)) = MODEL"
  shows "finalizedMessage now jsonParse inp prev =
     (attachGrounding (groundingChunksAcc inp)
        (fst (finalizeBranch now jsonParse inp prev (last (messages prev)))))\<lparr>isThinking := Some False\<rparr>"
  using assms
  by (cases "messages prev")
     (auto simp: finalizedMessage_def finalUpdater_def Let_def split: prod.splits)

lemma finalUpdater_project: "project (fst (finalUpdater now jsonParse inp prev)) = project prev"
  by (auto simp: finalUpdater_def Let_def split: list.splits prod.splits)

lemma finalizeProject_groundingChunks:
  "groundingChunks (fst (finalizeProject jsonParse s p m)) = groundingChunks m"
  by (auto simp: finalizeProject_def Let_def
      split: option.splits parsedResponse.splits list.splits prod.splits)

lemma finalizeBranch_groundingChunks:
  "groundingChunks (fst (finalizeBranch now jsonParse inp prev m)) = groundingChunks m"
  by (auto simp: finalizeBranch_def finalizeMedia_def finalizeChat_def finalizeProject_groundingChunks
      split: option.splits prod.splits bool.splits)

text \<open>
  Claim C1, as the code has it.  When the session ends in a MODEL message, its
  \<^verbatim>\<open>groundingChunks\<close> after finalization is left as it was when no citation was
  accumulated; otherwise it is set, also to an empty list, to the accumulated citations
  reduced to one entry for each usable URL, in first-seen order of the URLs, each URL
  represented by the last entry that carries it.
\<close>

theorem grounding_last_wins:
  assumes "messages prev \<noteq> []" and "role (last (messages prev)) = MODEL"
  shows "groundingChunks (finalizedMessage now jsonParse inp prev) =
     (if groundingChunksAcc inp = [] then groundingChunks (last (messages prev))
      else Some (dedupLastWins (groundingChunksAcc inp)))"
  unfolding finalizedMessage_eq[OF assms]
  by (simp add: attachGrounding_def finalizeBranch_groundingChunks uniqueChunks_dedupLastWins)

lemma example_last: "messages exampleSession \<noteq> [] \<and> role (last (messages exampleSession)) = MODEL"
  by (simp add: exampleSession_def exampleModelMessage_def)

theorem grounding_last_wins_witness:
  "messages exampleSession \<noteq> [] \<and> role (last (messages exampleSession)) = MODEL \<and>
   groundingChunks (finalizedMessage ''0'' exampleJsonParse
       (exampleInput\<lparr>groundingChunksAcc :=
          [citation ''x'' ''A'', citation ''x'' ''B'', citation ''y'' ''C'', \<lparr>web = None\<rparr>]\<rparr>)
       exampleSession) = Some [citation ''x'' ''B'', citation ''y'' ''C'']"
proof -
  have h1: "messages exampleSession \<noteq> []" and h2: "role (last (messages exampleSession)) = MODEL"
    using example_last by simp_all
  have "dedupLastWins [citation ''x'' ''A'', citation ''x'' ''B'', citation ''y'' ''C'', \<lparr>web = None\<rparr>]
      = [citation ''x'' ''B'', citation ''y'' ''C'']"
    by (simp add: dedupLastWins_def firstOccurrences_def chunkUri_def citation_def usableKey_def)
  with grounding_last_wins [OF h1 h2, of "''0''" exampleJsonParse
      "exampleInput\<lparr>groundingChunksAcc :=
          [citation ''x'' ''A'', citation ''x'' ''B'', citation ''y'' ''C'', \<lparr>web = None\<rparr>]\<rparr>"] h1 h2
  show ?thesis by simp
qed

text \<open>
  Claim C1 as stated fails twice.  Of two entries with the URL \<open>x\<close> the second is kept,
  not the first; and a single entry without a URL leaves an empty list attached although the
  resulting list is empty.
\<close>

theorem grounding_first_wins_counterexample:
  "groundingChunks (finalizedMessage ''0'' exampleJsonParse
       (exampleInput\<lparr>groundingChunksAcc := [citation ''x'' ''A'', citation ''x'' ''B'']\<rparr>)
       exampleSession) = Some [citation ''x'' ''B''] \<and>
   dedupFirstWins [] [citation ''x'' ''A'', citation ''x'' ''B''] = [citation ''x'' ''A''] \<and>
   citation ''x'' ''B'' \<noteq> citation ''x'' ''A'' \<and>
   groundingChunks (finalizedMessage ''0'' exampleJsonParse
       (exampleInput\<lparr>groundingChunksAcc := [\<lparr>web = None\<rparr>]\<rparr>) exampleSession) = Some [] \<and>
   dedupFirstWins [] [\<lparr>web = None\<rparr>] = []"
  by (simp add: finalizedMessage_def finalUpdater_def finalizeBranch_def finalizeChat_def
      thinkingMatch_def exampleSession_def exampleModelMessage_def exampleUserMessage_def
      exampleInput_def attachGrounding_def uniqueChunks_def newMap_def mapValues_def
      chunkUri_def hasUri_def citation_def)

lemma finalizeBranch_chat:
  "\<not> isImageRequest inp \<Longrightarrow> \<not> isVideoRequest inp \<Longrightarrow> \<not> (isInterpreterRequest inp \<and> project prev \<noteq> None) \<Longrightarrow>
   finalizeBranch now jsonParse inp prev m = (finalizeChat (fullResponseText inp) m, None)"
  by (auto simp: finalizeBranch_def split: option.splits bool.splits)

text \<open>
  The plain chat branch, on the text that the final updater receives.  A text that contains
  a thinking block is cut at its first opening tag and at the first closing tag after it:
  the reasoning is the trimmed text between the tags, the content is the trimmed rest.  A
  text without a block becomes the content as it is and the reasoning is left alone.
  Whether the text received is the accumulated text of the stream is a matter of the
  \<^verbatim>\<open>finally\<close> clause of each copy.
\<close>

lemma received_text_thinking_extraction:
  assumes "messages prev \<noteq> []" and "role (last (messages prev)) = MODEL"
    and "\<not> isImageRequest inp" and "\<not> isVideoRequest inp"
    and "\<not> (isInterpreterRequest inp \<and> project prev \<noteq> None)"
  shows "(if \<exists>inner. sublist (''<thinking>'' @ inner @ ''</thinking>'') (fullResponseText inp)
          then \<exists>before inner after.
                 fullResponseText inp = before @ ''<thinking>'' @ inner @ ''</thinking>'' @ after \<and>
                 \<not> sublist ''<thinking>'' (before @ butlast ''<thinking>'') \<and>
                 \<not> sublist ''</thinking>'' (inner @ butlast ''</thinking>'') \<and>
                 reasoning (finalizedMessage now jsonParse inp prev) = Some (trim inner) \<and>
                 content (finalizedMessage now jsonParse inp prev) = trim (before @ after)
          else content (finalizedMessage now jsonParse inp prev) = fullResponseText inp \<and>
               reasoning (finalizedMessage now jsonParse inp prev) = reasoning (last (messages prev))) \<and>
         finalizeChat ''<thinking>reasoning here</thinking>visible answer'' m =
           m\<lparr>reasoning := Some ''reasoning here'', content := ''visible answer''\<rparr>"
proof -
  have c: "content (finalizedMessage now jsonParse inp prev) =
      content (finalizeChat (fullResponseText inp) (last (messages prev)))"
    and r: "reasoning (finalizedMessage now jsonParse inp prev) =
      reasoning (finalizeChat (fullResponseText inp) (last (messages prev)))"
    unfolding finalizedMessage_eq[OF assms(1,2)] finalizeBranch_chat[OF assms(3,4,5)]
    by (simp_all add: attachGrounding_def)
  show ?thesis unfolding c r using finalizeChat_spec example_thinking by blast
qed

lemma received_text_thinking_example:
  "messages exampleSession \<noteq> [] \<and> role (last (messages exampleSession)) = MODEL \<and>
   \<not> isImageRequest exampleInput \<and> \<not> isVideoRequest exampleInput \<and>
   \<not> (isInterpreterRequest exampleInput \<and> project exampleSession \<noteq> None) \<and>
   (\<exists>inner. sublist (''<thinking>'' @ inner @ ''</thinking>'')
       (fullResponseText (exampleInput\<lparr>fullResponseText := ''<thinking>reasoning here</thinking>visible answer''\<rparr>))) \<and>
   reasoning (finalizedMessage ''0'' exampleJsonParse
       (exampleInput\<lparr>fullResponseText := ''<thinking>reasoning here</thinking>visible answer''\<rparr>)
       exampleSession) = Some ''reasoning here'' \<and>
   content (finalizedMessage ''0'' exampleJsonParse
       (exampleInput\<lparr>fullResponseText := ''<thinking>reasoning here</thinking>visible answer''\<rparr>)
       exampleSession) = ''visible answer''"
proof -
  let ?inp = "exampleInput\<lparr>fullResponseText := ''<thinking>reasoning here</thinking>visible answer''\<rparr>"
  have h1: "messages exampleSession \<noteq> []" and h2: "role (last (messages exampleSession)) = MODEL"
    using example_last by simp_all
  have h3: "\<not> isImageRequest ?inp" and h4: "\<not> isVideoRequest ?inp"
    and h5: "\<not> (isInterpreterRequest ?inp \<and> project exampleSession \<noteq> None)"
    by (simp_all add: exampleInput_def)
  have "''<thinking>reasoning here</thinking>visible answer'' =
      [] @ (''<thinking>'' @ ''reasoning here'' @ ''</thinking>'') @ ''visible answer''" by simp
  then have "sublist (''<thinking>'' @ ''reasoning here'' @ ''</thinking>'')
      ''<thinking>reasoning here</thinking>visible answer''"
    unfolding sublist_def by blast
  then have ex: "\<exists>inner. sublist (''<thinking>'' @ inner @ ''</thinking>'') (fullResponseText ?inp)"
    by (intro exI[of _ "''reasoning here''"]) simp
  note t = received_text_thinking_extraction [OF h1 h2 h3 h4 h5, of "''0''" exampleJsonParse exampleModelMessage]
  have m: "finalizedMessage ''0'' exampleJsonParse ?inp exampleSession =
      exampleModelMessage\<lparr>reasoning := Some ''reasoning here'', content := ''visible answer'', isThinking := Some False\<rparr>"
    by (simp add: finalizedMessage_def finalUpdater_def finalizeBranch_def finalizeChat_def
      thinkingMatch_def exampleSession_def exampleModelMessage_def exampleUserMessage_def
      exampleInput_def attachGrounding_def trim_def isWhiteSpace_def)
  from t ex h1 h2 m show ?thesis by (simp add: exampleInput_def)
qed

lemma finalizeBranch_project:
  "\<not> isImageRequest inp \<Longrightarrow> \<not> isVideoRequest inp \<Longrightarrow> isInterpreterRequest inp \<Longrightarrow> project prev = Some p \<Longrightarrow>
   finalizeBranch now jsonParse inp prev m = finalizeProject jsonParse (fullResponseText inp) p m"
  by (auto simp: finalizeBranch_def)

lemma finalUpdater_ui:
  assumes "messages prev \<noteq> []" and "role (last (messages prev)) = MODEL"
  shows "snd (finalUpdater now jsonParse inp prev) =
     snd (finalizeBranch now jsonParse inp prev (last (messages prev)))"
  using assms
  by (cases "messages prev") (auto simp: finalUpdater_def Let_def split: prod.splits)

text \<open>
  The project branch, on the text that the final updater receives.  When the cleaned text
  parses to a value other than \<^verbatim>\<open>null\<close> in which \<^verbatim>\<open>projectName\<close> or
  \<^verbatim>\<open>explanation\<close> is absent or empty, or \<^verbatim>\<open>files\<close> is absent, the content of the
  finalized message is the fixed prefix followed by the received text, the message's and the
  session's project are unchanged and nothing is handed to the code panel.  The updater is a
  total function: every failure inside the branch ends in one of the two fallback texts.
\<close>

lemma received_text_project_fallback:
  assumes "messages prev \<noteq> []" and "role (last (messages prev)) = MODEL"
    and "\<not> isImageRequest inp" and "\<not> isVideoRequest inp"
    and "isInterpreterRequest inp" and "project prev = Some p"
    and "jsonParse (cleanJsonString (fullResponseText inp)) = Some (ParsedValue pn ex fs)"
    and "pn = None \<or> pn = Some [] \<or> ex = None \<or> ex = Some [] \<or> fs = None"
  shows "content (finalizedMessage now jsonParse inp prev) = notExpectedFormat @ fullResponseText inp \<and>
         msgProject (finalizedMessage now jsonParse inp prev) = msgProject (last (messages prev)) \<and>
         project (fst (finalUpdater now jsonParse inp prev)) = project prev \<and>
         snd (finalUpdater now jsonParse inp prev) = None"
proof -
  have b: "finalizeProject jsonParse (fullResponseText inp) p (last (messages prev)) =
      ((last (messages prev))\<lparr>content := notExpectedFormat @ fullResponseText inp\<rparr>, None)"
    using assms(7,8) by (auto simp: finalizeProject_def split: option.splits list.splits)
  show ?thesis
    unfolding finalizedMessage_eq[OF assms(1,2)] finalUpdater_ui[OF assms(1,2)]
      finalizeBranch_project[OF assms(3,4,5,6)] b
    by (simp add: attachGrounding_def finalUpdater_project)
qed

lemma received_text_project_fallback_example:
  "messages exampleProjectSession \<noteq> [] \<and> role (last (messages exampleProjectSession)) = MODEL \<and>
   exampleJsonParse (cleanJsonString ''{}'') = Some (ParsedValue None None None) \<and>
   content (finalizedMessage ''0'' exampleJsonParse
       (exampleInput\<lparr>isInterpreterRequest := True, fullResponseText := ''{}''\<rparr>) exampleProjectSession)
     = notExpectedFormat @ ''{}'' \<and>
   project (fst (finalUpdater ''0'' exampleJsonParse
       (exampleInput\<lparr>isInterpreterRequest := True, fullResponseText := ''{}''\<rparr>) exampleProjectSession))
     = Some exampleProject"
proof -
  let ?inp = "exampleInput\<lparr>isInterpreterRequest := True, fullResponseText := ''{}''\<rparr>"
  have h1: "messages exampleProjectSession \<noteq> []"
    and h2: "role (last (messages exampleProjectSession)) = MODEL"
    and h6: "project exampleProjectSession = Some exampleProject"
    by (simp_all add: exampleProjectSession_def exampleSession_def exampleModelMessage_def)
  have h3: "\<not> isImageRequest ?inp" and h4: "\<not> isVideoRequest ?inp" and h5: "isInterpreterRequest ?inp"
    by (simp_all add: exampleInput_def)
  have cl: "cleanJsonString ''{}'' = ''{}''"
    by (simp add: cleanJsonString_def trim_def isWhiteSpace_def jsonFence_def lastIndexOf_def substring_def)
  have h7: "exampleJsonParse (cleanJsonString (fullResponseText ?inp)) = Some (ParsedValue None None None)"
    by (simp add: cl exampleJsonParse_def)
  have h8: "(None :: string option) = None \<or> (None :: string option) = Some [] \<or>
     (None :: string option) = None \<or> (None :: string option) = Some [] \<or> (None :: fileEntry list option) = None"
    by simp
  from received_text_project_fallback [where jsonParse = exampleJsonParse and now = "''0''", OF h1 h2 h3 h4 h5 h6 h7 h8]
    h1 h2 h7 h6
  show ?thesis by (simp add: cl)
qed

lemma project_parse_failure:
  assumes "messages prev \<noteq> []" and "role (last (messages prev)) = MODEL"
    and "\<not> isImageRequest inp" and "\<not> isVideoRequest inp"
    and "isInterpreterRequest inp" and "project prev = Some p"
    and "jsonParse (cleanJsonString (fullResponseText inp)) = None \<or>
         jsonParse (cleanJsonString (fullResponseText inp)) = Some ParsedNull"
  shows "content (finalizedMessage now jsonParse inp prev) = failedToParse @ fullResponseText inp \<and>
         project (fst (finalUpdater now jsonParse inp prev)) = project prev"
proof -
  have b: "finalizeProject jsonParse (fullResponseText inp) p (last (messages prev)) =
      ((last (messages prev))\<lparr>content := failedToParse @ fullResponseText inp\<rparr>, None)"
    using assms(7) by (auto simp: finalizeProject_def)
  show ?thesis
    unfolding finalizedMessage_eq[OF assms(1,2)] finalizeBranch_project[OF assms(3,4,5,6)] b
    by (simp add: attachGrounding_def finalUpdater_project)
qed

text \<open>
  The text \<^verbatim>\<open>null\<close> parses, the value has none of the three fields, reading a property
  of it throws, and the catch clause writes the other fallback text.
\<close>

lemma null_payload_other_fallback:
  "exampleJsonParse (cleanJsonString ''null'') = Some ParsedNull \<and>
   content (finalizedMessage ''0'' exampleJsonParse
       (exampleInput\<lparr>isInterpreterRequest := True, fullResponseText := ''null''\<rparr>) exampleProjectSession)
     = failedToParse @ ''null'' \<and>
   \<not> prefix notExpectedFormat (content (finalizedMessage ''0'' exampleJsonParse
       (exampleInput\<lparr>isInterpreterRequest := True, fullResponseText := ''null''\<rparr>) exampleProjectSession))"
proof -
  have cl: "cleanJsonString ''null'' = ''null''"
    by (simp add: cleanJsonString_def trim_def isWhiteSpace_def jsonFence_def lastIndexOf_def substring_def)
  have c: "content (finalizedMessage ''0'' exampleJsonParse
       (exampleInput\<lparr>isInterpreterRequest := True, fullResponseText := ''null''\<rparr>) exampleProjectSession)
     = failedToParse @ ''null''"
    by (simp add: finalizedMessage_def finalUpdater_def finalizeBranch_def finalizeProject_def cl
        exampleJsonParse_def exampleProjectSession_def exampleSession_def exampleModelMessage_def
        exampleUserMessage_def exampleInput_def attachGrounding_def)
  have "\<not> prefix notExpectedFormat (failedToParse @ ''null'')"
    by (simp add: notExpectedFormat_def failedToParse_def)
  with c cl show ?thesis by (simp add: exampleJsonParse_def)
qed

section \<open>What a request does to the log and to its signal\<close>

lemma emit_simps [simp]:
  "log (emit es a) = log a @ es"
  "controllers (emit es a) = controllers a"
  "abortControllerRef (emit es a) = abortControllerRef a"
  "chatHistory (emit es a) = chatHistory a"
  "isLoading (emit es a) = isLoading a"
  "activeChatId (emit es a) = activeChatId a"
  by (simp_all add: emit_def)

lemma aborted_cong: "controllers a' = controllers a \<Longrightarrow> signal r' = signal r \<Longrightarrow> aborted r' a' = aborted r a"
  by (simp add: aborted_def)

lemma ownsSignal_cong:
  "controllers a' = controllers a \<Longrightarrow> abortControllerRef a' = abortControllerRef a \<Longrightarrow>
   signal r' = signal r \<Longrightarrow> ownsSignal r' a' = ownsSignal r a"
  by (simp add: ownsSignal_def aborted_def)

lemma advances_refl:
  assumes "ownsSignal r a"
  shows "advances r a r a"
proof -
  have "\<exists>evs. log a = log a @ evs \<and>
          set evs \<subseteq> {ChunkObserved, StreamEcho, StopPressed, ResponseObserved} \<and>
          (aborted r a \<longleftrightarrow> aborted r a \<or> StopPressed \<in> set evs)"
    by (rule exI[of _ "[]"]) simp
  then show ?thesis using assms by (simp add: advances_def)
qed

lemma advances_trans:
  assumes "advances r a r1 a1" and "advances r1 a1 r2 a2"
  shows "advances r a r2 a2"
proof -
  from assms(1) obtain evs1 where 1: "signal r1 = signal r" "requestChatId r1 = requestChatId r"
    "log a1 = log a @ evs1" "set evs1 \<subseteq> {ChunkObserved, StreamEcho, StopPressed, ResponseObserved}"
    "aborted r1 a1 \<longleftrightarrow> aborted r a \<or> StopPressed \<in> set evs1"
    unfolding advances_def by blast
  from assms(2) obtain evs2 where 2: "signal r2 = signal r1" "requestChatId r2 = requestChatId r1"
    "ownsSignal r2 a2"
    "log a2 = log a1 @ evs2" "set evs2 \<subseteq> {ChunkObserved, StreamEcho, StopPressed, ResponseObserved}"
    "aborted r2 a2 \<longleftrightarrow> aborted r1 a1 \<or> StopPressed \<in> set evs2"
    unfolding advances_def by blast
  have "log a2 = log a @ (evs1 @ evs2)" using 1(3) 2(4) by simp
  moreover have "set (evs1 @ evs2) \<subseteq> {ChunkObserved, StreamEcho, StopPressed, ResponseObserved}"
    using 1(4) 2(5) by simp
  moreover have "aborted r2 a2 \<longleftrightarrow> aborted r a \<or> StopPressed \<in> set (evs1 @ evs2)"
    using 1(5) 2(6) by auto
  ultimately have "\<exists>evs. log a2 = log a @ evs \<and>
            set evs \<subseteq> {ChunkObserved, StreamEcho, StopPressed, ResponseObserved} \<and>
            (aborted r2 a2 \<longleftrightarrow> aborted r a \<or> StopPressed \<in> set evs)"
    by (intro exI[of _ "evs1 @ evs2"]) simp
  moreover have "signal r2 = signal r" "requestChatId r2 = requestChatId r"
    using 1(1,2) 2(1,2) by simp_all
  ultimately show ?thesis unfolding advances_def using 2(3) by simp
qed

lemma advances_quiet:
  assumes "ownsSignal r a" and "signal r' = signal r" and "requestChatId r' = requestChatId r"
    and "controllers a' = controllers a" and "abortControllerRef a' = abortControllerRef a"
    and "log a' = log a @ evs" and "set evs \<subseteq> {ChunkObserved, StreamEcho, ResponseObserved}"
  shows "advances r a r' a'"
proof -
  have o: "ownsSignal r' a'" using ownsSignal_cong[OF assms(4,5,2)] assms(1) by simp
  have ab: "aborted r' a' = aborted r a" using assms(4,2) by (rule aborted_cong)
  have ns: "StopPressed \<notin> set evs"
  proof
    assume "StopPressed \<in> set evs"
    then have "StopPressed \<in> {ChunkObserved, StreamEcho, ResponseObserved}"
      using assms(7) by (rule subsetD[rotated])
    then show False by simp
  qed
  have "{ChunkObserved, StreamEcho, ResponseObserved} \<subseteq>
        {ChunkObserved, StreamEcho, StopPressed, ResponseObserved}" by simp
  with assms(7) have sub: "set evs \<subseteq> {ChunkObserved, StreamEcho, StopPressed, ResponseObserved}"
    by (rule subset_trans)
  have "\<exists>evs. log a' = log a @ evs \<and>
          set evs \<subseteq> {ChunkObserved, StreamEcho, StopPressed, ResponseObserved} \<and>
          (aborted r' a' \<longleftrightarrow> aborted r a \<or> StopPressed \<in> set evs)"
    by (rule exI[of _ evs]) (simp add: assms(6) sub ab ns)
  then show ?thesis using o assms(2,3) by (simp add: advances_def)
qed

lemma nth_list_update_True: "xs ! j \<Longrightarrow> xs[i := True] ! j"
  by (cases "i < length xs") (auto simp: nth_list_update list_update_beyond)

lemma advances_stop:
  assumes "ownsSignal r a"
  shows "advances r a r (handleStopGeneration a)"
proof -
  let ?a = "handleStopGeneration a"
  have len: "length (controllers ?a) = length (controllers a)"
    by (simp add: handleStopGeneration_def split: option.splits)
  have ab: "aborted r ?a"
    using assms
    by (auto simp: ownsSignal_def aborted_def handleStopGeneration_def nth_list_update_True
        split: option.splits)
  have lg: "log ?a = log a @ [StopPressed]" by (simp add: handleStopGeneration_def)
  have o: "ownsSignal r ?a" using ab assms len by (simp add: ownsSignal_def)
  have "\<exists>evs. log ?a = log a @ evs \<and>
          set evs \<subseteq> {ChunkObserved, StreamEcho, StopPressed, ResponseObserved} \<and>
          (aborted r ?a \<longleftrightarrow> aborted r a \<or> StopPressed \<in> set evs)"
    by (rule exI[of _ "[StopPressed]"]) (simp add: lg ab)
  then show ?thesis using o by (simp add: advances_def)
qed

lemma advances_awaitPoint: "ownsSignal r a \<Longrightarrow> advances r a r (awaitPoint stopAt k a)"
  by (simp add: awaitPoint_def advances_stop advances_refl)

lemma onChunk_fields:
  assumes "onChunk chunk (r, a) = (r', a')"
  shows "signal r' = signal r" "requestChatId r' = requestChatId r"
    "controllers a' = controllers a" "abortControllerRef a' = abortControllerRef a"
    "log a' = log a @ (if echo r then [ChunkObserved, StreamEcho] else [ChunkObserved])"
proof -
  from assms have r': "r' = fst (onChunk chunk (r, a))" and a': "a' = snd (onChunk chunk (r, a))"
    by simp_all
  show "signal r' = signal r" "requestChatId r' = requestChatId r"
    unfolding r' by (simp_all add: onChunk_def Let_def)
  show "controllers a' = controllers a" "abortControllerRef a' = abortControllerRef a"
    "log a' = log a @ (if echo r then [ChunkObserved, StreamEcho] else [ChunkObserved])"
    unfolding a' by (simp_all add: onChunk_def Let_def)
qed

lemma advances_onChunk:
  assumes "ownsSignal r a" and "onChunk chunk (r, a) = (r', a')"
  shows "advances r a r' a'"
  using assms(1) onChunk_fields[OF assms(2)]
  by (intro advances_quiet[where evs="if echo r then [ChunkObserved, StreamEcho] else [ChunkObserved]"])
     simp_all

lemma advances_owns: "advances r a r' a' \<Longrightarrow> ownsSignal r' a'"
  by (simp add: advances_def)

lemma streamLoop_advances:
  "ownsSignal r a \<Longrightarrow> streamLoop stopAt k chunks completes (r, a) = (oc, r', a') \<Longrightarrow>
   advances r a r' a' \<and> (oc = ThrewAbortError \<longrightarrow> aborted r' a')"
proof (induction chunks arbitrary: k r a)
  case Nil
  then show ?case
    by (auto simp: advances_refl advances_awaitPoint split: if_splits)
next
  case (Cons chunk rest)
  show ?case
  proof (cases "aborted r a")
    case True
    with Cons.prems show ?thesis by (auto simp: advances_refl)
  next
    case False
    obtain r1 a1 where oc1: "onChunk chunk (r, awaitPoint stopAt k a) = (r1, a1)"
      by (cases "onChunk chunk (r, awaitPoint stopAt k a)") auto
    have s1: "advances r a r (awaitPoint stopAt k a)"
      using Cons.prems(1) by (rule advances_awaitPoint)
    have s2: "advances r (awaitPoint stopAt k a) r1 a1"
      using advances_owns[OF s1] oc1 by (rule advances_onChunk)
    from Cons.prems(2) False oc1 have "streamLoop stopAt (Suc k) rest completes (r1, a1) = (oc, r', a')"
      by simp
    from Cons.IH[OF advances_owns[OF s2] this]
    have "advances r1 a1 r' a'" and ab: "oc = ThrewAbortError \<longrightarrow> aborted r' a'" by simp_all
    with s1 s2 have "advances r a r' a'" by (meson advances_trans)
    with ab show ?thesis by simp
  qed
qed

lemma generateChatResponse_advances:
  assumes "ownsSignal r a" and "generateChatResponse modelName s stopAt (r, a) = (oc, r', a')"
  shows "advances r a r' a' \<and> (oc = ThrewAbortError \<longrightarrow> aborted r' a')"
proof -
  have s1: "advances r a r (awaitPoint stopAt 0 a)" using assms(1) by (rule advances_awaitPoint)
  show ?thesis
  proof (cases "modelName \<in> set imageEditModels")
    case True
    show ?thesis
    proof (cases "aborted r a")
      case ab: True
      with True assms show ?thesis by (auto simp: generateChatResponse_def advances_refl)
    next
      case nab: False
      show ?thesis
      proof (cases "contentResult s")
        case None
        with True nab assms(2) s1 show ?thesis by (auto simp: generateChatResponse_def)
      next
        case (Some resp)
        with True nab assms(2) have oc: "onChunk resp (r, awaitPoint stopAt 0 a) = (r', a')" "oc = Returned"
          by (auto simp: generateChatResponse_def split: prod.splits)
        from advances_trans[OF s1 advances_onChunk[OF advances_owns[OF s1] oc(1)]] oc(2) show ?thesis
          by simp
      qed
    qed
  next
    case False
    show ?thesis
    proof (cases "streamOpens s")
      case True
      with False assms(2) have "streamLoop stopAt 1 (streamChunks s) (streamCompletes s) (r, awaitPoint stopAt 0 a) = (oc, r', a')"
        by (simp add: generateChatResponse_def)
      from streamLoop_advances[OF advances_owns[OF s1] this]
      have "advances r (awaitPoint stopAt 0 a) r' a'" and ab: "oc = ThrewAbortError \<longrightarrow> aborted r' a'"
        by simp_all
      from advances_trans[OF s1 this(1)] ab show ?thesis by simp
    next
      case no: False
      with False assms(2) s1 show ?thesis by (auto simp: generateChatResponse_def)
    qed
  qed
qed

lemma generateImage_advances:
  assumes "ownsSignal r a" and "generateImage s stopAt (r, a) = (oc, r', a')"
  shows "advances r a r' a' \<and> (oc = ThrewAbortError \<longrightarrow> aborted r' a')"
proof (cases "aborted r a")
  case True
  with assms show ?thesis by (auto simp: generateImage_def advances_refl)
next
  case False
  have s1: "advances r a r (awaitPoint stopAt 0 a)" using assms(1) by (rule advances_awaitPoint)
  show ?thesis
  proof (cases "imagesResult s")
    case None
    with False assms(2) s1 show ?thesis by (auto simp: generateImage_def Let_def)
  next
    case (Some images)
    show ?thesis
    proof (cases "aborted r (awaitPoint stopAt 0 a)")
      case True
      with False Some assms(2) s1 show ?thesis by (auto simp: generateImage_def Let_def)
    next
      case nab: False
      with False Some assms(2) have res: "oc = Returned"
        "r' = r\<lparr>fullResponse := Some (imageResponse images)\<rparr>"
        "a' = emit [ResponseObserved] (awaitPoint stopAt 0 a)"
        by (auto simp: generateImage_def Let_def)
      have "advances r (awaitPoint stopAt 0 a) r' a'" unfolding res
        using advances_owns[OF s1] by (intro advances_quiet[where evs="[ResponseObserved]"]) simp_all
      with s1 have "advances r a r' a'" by (rule advances_trans)
      with res(1) show ?thesis by simp
    qed
  qed
qed

lemma pollLoop_advances:
  "ownsSignal r a \<Longrightarrow> pollLoop stopAt k n r a = (stopped, k', a') \<Longrightarrow>
   advances r a r a' \<and> (stopped \<longrightarrow> aborted r a')"
proof (induction n arbitrary: k a)
  case 0
  then show ?case by (auto simp: advances_refl)
next
  case (Suc n)
  show ?case
  proof (cases "aborted r a")
    case True
    with Suc.prems show ?thesis by (auto simp: advances_refl)
  next
    case False
    have s1: "advances r a r (awaitPoint stopAt k a)" using Suc.prems(1) by (rule advances_awaitPoint)
    have s2: "advances r (awaitPoint stopAt k a) r (awaitPoint stopAt (k + 1) (awaitPoint stopAt k a))"
      using advances_owns[OF s1] by (rule advances_awaitPoint)
    from Suc.prems(2) False
    have "pollLoop stopAt (k + 2) n r (awaitPoint stopAt (k + 1) (awaitPoint stopAt k a)) = (stopped, k', a')"
      by simp
    from Suc.IH[OF advances_owns[OF s2] this]
    have "advances r (awaitPoint stopAt (k + 1) (awaitPoint stopAt k a)) r a'"
      and ab: "stopped \<longrightarrow> aborted r a'" by simp_all
    from advances_trans[OF advances_trans[OF s1 s2] this(1)] ab show ?thesis by simp
  qed
qed

lemma generateVideo_advances:
  assumes "ownsSignal r a" and "generateVideo s stopAt (r, a) = (oc, r', a')"
  shows "advances r a r' a' \<and> (oc = ThrewAbortError \<longrightarrow> aborted r' a')"
proof (cases "aborted r a")
  case True
  with assms show ?thesis by (auto simp: generateVideo_def advances_refl)
next
  case False
  have s1: "advances r a r (awaitPoint stopAt 0 a)" using assms(1) by (rule advances_awaitPoint)
  obtain stopped k a1 where p: "pollLoop stopAt 1 (videoPolls s) r (awaitPoint stopAt 0 a) = (stopped, k, a1)"
    by (cases "pollLoop stopAt 1 (videoPolls s) r (awaitPoint stopAt 0 a)") auto
  from pollLoop_advances[OF advances_owns[OF s1] p]
  have s2: "advances r (awaitPoint stopAt 0 a) r a1" and st: "stopped \<longrightarrow> aborted r a1" by simp_all
  from s1 s2 have s12: "advances r a r a1" by (rule advances_trans)
  show ?thesis
  proof (cases "stopped \<or> aborted r a1")
    case True
    with False p assms(2) st s12 show ?thesis by (auto simp: generateVideo_def)
  next
    case go: False
    show ?thesis
    proof (cases "videoResult s")
      case None
      with False go p assms(2) s12 show ?thesis by (auto simp: generateVideo_def)
    next
      case (Some bytes)
      let ?a2 = "awaitPoint stopAt (k + 2) (awaitPoint stopAt (k + 1) (awaitPoint stopAt k a1))"
      from False go p assms(2) Some have res: "oc = Returned" "r' = r\<lparr>fullResponse := Some (videoResponse bytes)\<rparr>"
        "a' = emit [ResponseObserved] ?a2"
        by (auto simp: generateVideo_def)
      have t1: "advances r a1 r (awaitPoint stopAt k a1)"
        using advances_owns[OF s12] by (rule advances_awaitPoint)
      have t2: "advances r (awaitPoint stopAt k a1) r (awaitPoint stopAt (k + 1) (awaitPoint stopAt k a1))"
        using advances_owns[OF t1] by (rule advances_awaitPoint)
      have t3: "advances r (awaitPoint stopAt (k + 1) (awaitPoint stopAt k a1)) r ?a2"
        using advances_owns[OF t2] by (rule advances_awaitPoint)
      have t4: "advances r ?a2 r' a'" unfolding res
        using advances_owns[OF t3] by (intro advances_quiet[where evs="[ResponseObserved]"]) simp_all
      have "advances r a r' a'"
        by (rule advances_trans[OF advances_trans[OF advances_trans[OF advances_trans[OF s12 t1] t2] t3] t4])
      with res(1) show ?thesis by simp
    qed
  qed
qed

section \<open>Properties of sending and stopping\<close>

lemma dispatch_advances:
  assumes "ownsSignal r a" and "dispatch e s stopAt (r, a) = (oc, r', a')"
  shows "\<exists>ep. advances r (emit [AdapterCall ep] a) r' a' \<and> (oc = ThrewAbortError \<longrightarrow> aborted r' a')"
proof -
  have o: "ownsSignal r (emit [AdapterCall ep] a)" for ep
    using ownsSignal_cong[of "emit [AdapterCall ep] a" a r r] assms(1) by simp
  consider (img) "dispatch e s stopAt (r, a) = generateImage s stopAt (r, emit [AdapterCall GenerateImage] a)"
    | (vid) "dispatch e s stopAt (r, a) = generateVideo s stopAt (r, emit [AdapterCall GenerateVideo] a)"
    | (chat) "dispatch e s stopAt (r, a) =
        generateChatResponse (modelForApi e) s stopAt (r, emit [AdapterCall GenerateChatResponse] a)"
    unfolding dispatch_def
    by (cases "isImageToolActive (tools e) \<and> isTextToImageModel (activeBaseModel e)";
        cases "isVideoToolActive (tools e)") simp_all
  then show ?thesis
  proof cases
    case img
    with assms(2) generateImage_advances[OF o[of GenerateImage]] show ?thesis by metis
  next
    case vid
    with assms(2) generateVideo_advances[OF o[of GenerateVideo]] show ?thesis by metis
  next
    case chat
    with assms(2) generateChatResponse_advances[OF o[of GenerateChatResponse]] show ?thesis by metis
  qed
qed

lemma applyUi_fields [simp]:
  "log (applyUi uis a) = log a" "controllers (applyUi uis a) = controllers a"
  by (simp_all add: applyUi_def split: list.splits)

lemma settle_log:
  "log (settle e t (oc, r, a)) =
     log a @ outcomeEvents oc @ [SetIsLoading False] @ (if aborted r a then [] else [FinalCommit])"
proof -
  have c: "controllers (catchClause oc r a) = controllers a" "log (catchClause oc r a) = log a @ outcomeEvents oc"
    by (simp_all add: catchClause_def split: outcome.splits)
  let ?a1 = "emit [SetIsLoading False] ((catchClause oc r a)\<lparr>isLoading := False\<rparr>)"
  have "aborted r ?a1 = aborted r a"
    by (rule aborted_cong) (simp_all add: c)
  then show ?thesis
    by (simp add: settle_def finallyClause_def Let_def applyFinal_def c)
qed

lemma run_log:
  assumes "ownsSignal r a" and "\<not> aborted r a"
  shows "\<exists>ep evs oc.
           log (settle e t (dispatch e s stopAt (r, a))) =
             log a @ [AdapterCall ep] @ evs @ outcomeEvents oc @ [SetIsLoading False] @
               (if StopPressed \<in> set evs then [] else [FinalCommit]) \<and>
           set evs \<subseteq> {ChunkObserved, StreamEcho, StopPressed, ResponseObserved} \<and>
           (oc = ThrewAbortError \<longrightarrow> StopPressed \<in> set evs)"
proof -
  obtain oc r' a' where d: "dispatch e s stopAt (r, a) = (oc, r', a')"
    by (cases "dispatch e s stopAt (r, a)") auto
  from dispatch_advances[OF assms(1) d] obtain ep where
    adv: "advances r (emit [AdapterCall ep] a) r' a'" and ab: "oc = ThrewAbortError \<longrightarrow> aborted r' a'"
    by blast
  have "aborted r (emit [AdapterCall ep] a) = aborted r a" by (rule aborted_cong) simp_all
  with assms(2) have na: "\<not> aborted r (emit [AdapterCall ep] a)" by simp
  from adv obtain evs where evs: "log a' = log (emit [AdapterCall ep] a) @ evs"
    "set evs \<subseteq> {ChunkObserved, StreamEcho, StopPressed, ResponseObserved}"
    "aborted r' a' \<longleftrightarrow> aborted r (emit [AdapterCall ep] a) \<or> StopPressed \<in> set evs"
    unfolding advances_def by blast
  from evs(3) na have iff: "aborted r' a' \<longleftrightarrow> StopPressed \<in> set evs" by simp
  have "log (settle e t (dispatch e s stopAt (r, a))) =
     log a @ [AdapterCall ep] @ evs @ outcomeEvents oc @ [SetIsLoading False] @
       (if StopPressed \<in> set evs then [] else [FinalCommit])"
    unfolding d settle_log evs(1) using iff by simp
  with evs(2) ab iff show ?thesis by blast
qed

lemma startLoading_fields [simp]:
  "controllers (startLoading a) = controllers a @ [False]"
  "abortControllerRef (startLoading a) = Some (length (controllers a))"
  "log (startLoading a) = log a @ [SetIsLoading True]"
  by (simp_all add: startLoading_def)

lemma openTurn_fields:
  assumes "openTurn e prompt atts a = (cc, cid, a3)"
  shows "controllers a3 = controllers a @ [False]"
    and "abortControllerRef a3 = Some (length (controllers a))"
    and "log a3 = log a @ [SetIsLoading True, TurnAppended] \<or>
         log a3 = log a @ [SetIsLoading True, TurnAppended, ProjectCreated]"
proof -
  from assms have a3: "a3 = snd (snd (openTurn e prompt atts a))" by simp
  show "controllers a3 = controllers a @ [False]"
    unfolding a3 by (simp add: openTurn_def Let_def split: option.splits)
  show "abortControllerRef a3 = Some (length (controllers a))"
    unfolding a3 by (simp add: openTurn_def Let_def split: option.splits)
  show "log a3 = log a @ [SetIsLoading True, TurnAppended] \<or>
         log a3 = log a @ [SetIsLoading True, TurnAppended, ProjectCreated]"
    unfolding a3 by (simp add: openTurn_def Let_def split: option.splits)
qed

lemma openTurn2_fields:
  "controllers (openTurn2 e prompt atts cid found (startLoading a)) = controllers a @ [False]"
  "abortControllerRef (openTurn2 e prompt atts cid found (startLoading a)) = Some (length (controllers a))"
  "log (openTurn2 e prompt atts cid found (startLoading a)) = log a @ [SetIsLoading True, TurnAppended] \<or>
   log (openTurn2 e prompt atts cid found (startLoading a)) = log a @ [SetIsLoading True, ProjectCreated, TurnAppended]"
  by (simp_all add: openTurn2_def Let_def)

lemma run_requestLog:
  assumes "controllers a3 = controllers a @ [False]"
    and "abortControllerRef a3 = Some (length (controllers a))"
    and "log a3 = log a @ P" and "set P \<subseteq> {SetIsLoading True, TurnAppended, ProjectCreated}"
    and "signal r = length (controllers a)"
  shows "\<exists>L. log (settle e t (dispatch e s stopAt (r, a3))) = log a @ L \<and> requestLog L"
proof -
  have o: "ownsSignal r a3" using assms(1,2,5) by (simp add: ownsSignal_def)
  have na: "\<not> aborted r a3" using assms(1,5) by (simp add: aborted_def)
  from run_log[OF o na, of e t s stopAt] obtain ep evs oc where
    l: "log (settle e t (dispatch e s stopAt (r, a3))) =
             log a3 @ [AdapterCall ep] @ evs @ outcomeEvents oc @ [SetIsLoading False] @
               (if StopPressed \<in> set evs then [] else [FinalCommit])"
    and e: "set evs \<subseteq> {ChunkObserved, StreamEcho, StopPressed, ResponseObserved}"
    and ab: "oc = ThrewAbortError \<longrightarrow> StopPressed \<in> set evs"
    by blast
  let ?L = "P @ [AdapterCall ep] @ evs @ outcomeEvents oc @ [SetIsLoading False] @
               (if StopPressed \<in> set evs then [] else [FinalCommit])"
  have "log (settle e t (dispatch e s stopAt (r, a3))) = log a @ ?L"
    unfolding l assms(3) by simp
  moreover have "requestLog ?L" unfolding requestLog_def using assms(4) e ab by blast
  ultimately show ?thesis by blast
qed

lemma handleSendMessage_log:
  "\<exists>L. log (handleSendMessage e s stopAt prompt atts a) = log a @ L \<and>
       (requestLog L \<or> L = [] \<or> L = [Alert textToImageAlert] \<or>
        L = [SetIsLoading True, TurnAppended, UnhandledRejection] \<or>
        L = [SetIsLoading True, TurnAppended, ProjectCreated, UnhandledRejection])"
proof (cases "(trim prompt = [] \<and> atts = []) \<or> isLoading a")
  case True
  then have "handleSendMessage e s stopAt prompt atts a = a" by (auto simp: handleSendMessage_def)
  then show ?thesis by simp
next
  case g1: False
  show ?thesis
  proof (cases "isImageToolActive (tools e) \<and> isTextToImageModel (activeBaseModel e) \<and> atts \<noteq> []")
    case True
    with g1 have "handleSendMessage e s stopAt prompt atts a = emit [Alert textToImageAlert] a"
      by (auto simp: handleSendMessage_def)
    then show ?thesis by simp
  next
    case g2: False
    obtain cc cid a3 where ot: "openTurn e prompt atts a = (cc, cid, a3)"
      by (cases "openTurn e prompt atts a") auto
    note f = openTurn_fields[OF ot]
    show ?thesis
    proof (cases cc)
      case None
      with g1 g2 ot have "handleSendMessage e s stopAt prompt atts a = emit [UnhandledRejection] a3"
        by (auto simp: handleSendMessage_def)
      with f(3) show ?thesis by auto
    next
      case (Some currentChat)
      with g1 g2 ot have run: "handleSendMessage e s stopAt prompt atts a =
         settle e True (dispatch e s stopAt
            (newRequest e (isVideoModel (activeBaseModel e)) cid (length (controllers a)), a3))"
        by (auto simp: handleSendMessage_def)
      from f(3) obtain P where P: "log a3 = log a @ P"
        "set P \<subseteq> {SetIsLoading True, TurnAppended, ProjectCreated}"
        by auto
      have sg: "signal (newRequest e (isVideoModel (activeBaseModel e)) cid (length (controllers a)))
          = length (controllers a)"
        by (simp add: newRequest_def)
      from run_requestLog[OF f(1) f(2) P sg, of e True s stopAt] run show ?thesis by auto
    qed
  qed
qed

lemma handleSendMessage2_log:
  "\<exists>L. log (handleSendMessage2 e s stopAt prompt atts a) = log a @ L \<and>
       (requestLog L \<or> L = [] \<or> L = [Alert textToImageAlert] \<or> L = [Alert imageEditAlert] \<or>
        L = [SetIsLoading True, UnhandledRejection])"
proof (cases "(trim prompt = [] \<and> atts = []) \<or> isLoading a")
  case True
  then have "handleSendMessage2 e s stopAt prompt atts a = a" by (auto simp: handleSendMessage2_def)
  then show ?thesis by simp
next
  case g1: False
  show ?thesis
  proof (cases "activeChatId a")
    case None
    with g1 have "handleSendMessage2 e s stopAt prompt atts a = a" by (auto simp: handleSendMessage2_def)
    then show ?thesis by simp
  next
    case (Some cid)
    show ?thesis
    proof (cases cid)
      case Nil
      with g1 Some have "handleSendMessage2 e s stopAt prompt atts a = a"
        by (auto simp: handleSendMessage2_def)
      then show ?thesis by simp
    next
      case (Cons c cs)
      show ?thesis
      proof (cases "isImageToolActive (tools e) \<and> isTextToImageModel (activeBaseModel e) \<and> atts \<noteq> []")
        case True
        with g1 Some Cons have "handleSendMessage2 e s stopAt prompt atts a = emit [Alert textToImageAlert] a"
          by (auto simp: handleSendMessage2_def)
        then show ?thesis by simp
      next
        case g2: False
        show ?thesis
        proof (cases "isImageToolActive (tools e) \<and> isImageEditModel (activeBaseModel e) \<and> atts = []")
          case True
          with g1 g2 Some Cons have "handleSendMessage2 e s stopAt prompt atts a = emit [Alert imageEditAlert] a"
            by (auto simp: handleSendMessage2_def)
          then show ?thesis by simp
        next
          case g3: False
          show ?thesis
          proof (cases "find (\<lambda>chat. chatId chat = c # cs) (chatHistory a)")
            case None
            with g1 g2 g3 Some Cons have "handleSendMessage2 e s stopAt prompt atts a =
                emit [UnhandledRejection] (startLoading a)"
              by (auto simp: handleSendMessage2_def)
            then show ?thesis by simp
          next
            case found: (Some found)
            let ?a3 = "openTurn2 e prompt atts (c # cs) found (startLoading a)"
            from g1 g2 g3 Some Cons found have run: "handleSendMessage2 e s stopAt prompt atts a =
               settle e False (dispatch e s stopAt
                 (newRequest e (isVideoModel2 (activeBaseModel e)) (c # cs) (length (controllers a)), ?a3))"
              by (auto simp: handleSendMessage2_def)
            from openTurn2_fields(3)[of e prompt atts "c # cs" found a]
            obtain P where P: "log ?a3 = log a @ P"
              "set P \<subseteq> {SetIsLoading True, TurnAppended, ProjectCreated}"
              by auto
            have sg: "signal (newRequest e (isVideoModel2 (activeBaseModel e)) (c # cs) (length (controllers a)))
                = length (controllers a)"
              by (simp add: newRequest_def)
            from run_requestLog[OF openTurn2_fields(1) openTurn2_fields(2) P sg, of e False s stopAt] run
            show ?thesis by auto
          qed
        qed
      qed
    qed
  qed
qed

lemma requestLog_success:
  assumes "requestLog L" and "AdapterReturned \<in> set L" and "StopPressed \<notin> set L"
  shows "\<exists>pre. L = pre @ [SetIsLoading False, FinalCommit] \<and>
           SetIsLoading False \<notin> set pre \<and> FinalCommit \<notin> set pre"
proof -
  from assms(1) obtain P ep evs oc where
    L: "L = P @ [AdapterCall ep] @ evs @ outcomeEvents oc @ [SetIsLoading False] @
              (if StopPressed \<in> set evs then [] else [FinalCommit])"
    and P: "set P \<subseteq> {SetIsLoading True, TurnAppended, ProjectCreated}"
    and evs: "set evs \<subseteq> {ChunkObserved, StreamEcho, StopPressed, ResponseObserved}"
    unfolding requestLog_def by blast
  have nP: "x \<in> set P \<Longrightarrow> x \<noteq> AdapterReturned \<and> x \<noteq> SetIsLoading False \<and> x \<noteq> FinalCommit" for x
    using P by blast
  have nE: "x \<in> set evs \<Longrightarrow> x \<noteq> AdapterReturned \<and> x \<noteq> SetIsLoading False \<and> x \<noteq> FinalCommit" for x
    using evs by blast
  from assms(3) L have ns: "StopPressed \<notin> set evs" by simp
  have "AdapterReturned \<in> set (outcomeEvents oc)"
    using assms(2) nP nE unfolding L by (auto split: if_splits)
  then have oc: "oc = Returned" by (cases oc) (simp_all add: outcomeEvents_def)
  let ?pre = "P @ [AdapterCall ep] @ evs @ [AdapterReturned]"
  have "L = ?pre @ [SetIsLoading False, FinalCommit]"
    unfolding L using ns oc by (simp add: outcomeEvents_def)
  moreover have "SetIsLoading False \<notin> set ?pre" "FinalCommit \<notin> set ?pre"
    using nP nE by auto
  ultimately show ?thesis by blast
qed

lemma requestLog_stopped:
  assumes "requestLog L" and "StopPressed \<in> set L"
  shows "FinalCommit \<notin> set L"
proof -
  from assms(1) obtain P ep evs oc where
    L: "L = P @ [AdapterCall ep] @ evs @ outcomeEvents oc @ [SetIsLoading False] @
              (if StopPressed \<in> set evs then [] else [FinalCommit])"
    and P: "set P \<subseteq> {SetIsLoading True, TurnAppended, ProjectCreated}"
    and evs: "set evs \<subseteq> {ChunkObserved, StreamEcho, StopPressed, ResponseObserved}"
    unfolding requestLog_def by blast
  have nP: "x \<in> set P \<Longrightarrow> x \<noteq> StopPressed \<and> x \<noteq> FinalCommit" for x
    using P by blast
  have nE: "x \<in> set evs \<Longrightarrow> x \<noteq> FinalCommit" for x
    using evs by blast
  have nO: "StopPressed \<notin> set (outcomeEvents oc)" "FinalCommit \<notin> set (outcomeEvents oc)"
    by (cases oc; simp add: outcomeEvents_def)+
  from assms(2) nP nO(1) have st: "StopPressed \<in> set evs" unfolding L by (auto split: if_splits)
  then have "L = P @ [AdapterCall ep] @ evs @ outcomeEvents oc @ [SetIsLoading False]"
    unfolding L by simp
  then show ?thesis using nP nE nO(2) by auto
qed

lemma requestLog_abort_silent:
  assumes "requestLog L" and "AdapterThrewAbortError \<in> set L"
  shows "ErrorCommit \<notin> set L \<and> FinalCommit \<notin> set L"
proof -
  from assms(1) obtain P ep evs oc where
    L: "L = P @ [AdapterCall ep] @ evs @ outcomeEvents oc @ [SetIsLoading False] @
              (if StopPressed \<in> set evs then [] else [FinalCommit])"
    and P: "set P \<subseteq> {SetIsLoading True, TurnAppended, ProjectCreated}"
    and evs: "set evs \<subseteq> {ChunkObserved, StreamEcho, StopPressed, ResponseObserved}"
    and ab: "oc = ThrewAbortError \<longrightarrow> StopPressed \<in> set evs"
    unfolding requestLog_def by blast
  have nP: "x \<in> set P \<Longrightarrow> x \<noteq> AdapterThrewAbortError \<and> x \<noteq> ErrorCommit \<and> x \<noteq> FinalCommit" for x
    using P by blast
  have nE: "x \<in> set evs \<Longrightarrow> x \<noteq> AdapterThrewAbortError \<and> x \<noteq> ErrorCommit \<and> x \<noteq> FinalCommit" for x
    using evs by blast
  have "AdapterThrewAbortError \<in> set (outcomeEvents oc)"
    using assms(2) nP nE unfolding L by (auto split: if_splits)
  then have oc: "oc = ThrewAbortError" by (cases oc) (simp_all add: outcomeEvents_def)
  with ab have "StopPressed \<in> set evs" by simp
  then have "L = P @ [AdapterCall ep] @ evs @ [AdapterThrewAbortError, SetIsLoading False]"
    unfolding L oc by (simp add: outcomeEvents_def)
  then show ?thesis using nP nE by auto
qed

text \<open>
  Claim C8.  In both copies, a call of the handler while the loading flag is set, or with a
  prompt that is empty after trimming and no attachment, returns the state as it was: no
  session changes, the loading flag is not touched, and nothing is added to the log, so the
  generation client is not called.
\<close>

theorem send_ignored:
  assumes "isLoading a \<or> (trim prompt = [] \<and> atts = [])"
  shows "handleSendMessage e s stopAt prompt atts a = a \<and>
         handleSendMessage2 e s stopAt prompt atts a = a"
  using assms by (auto simp: handleSendMessage_def handleSendMessage2_def)

theorem send_ignored_witness:
  "(isLoading (exampleApp\<lparr>isLoading := True\<rparr>) \<or> (trim ''Hello'' = [] \<and> ([] :: attachment list) = [])) \<and>
   handleSendMessage exampleEnv exampleSdk None ''Hello'' [] (exampleApp\<lparr>isLoading := True\<rparr>)
     = exampleApp\<lparr>isLoading := True\<rparr> \<and>
   handleSendMessage2 exampleEnv exampleSdk None ''Hello'' [] (exampleApp\<lparr>isLoading := True\<rparr>)
     = exampleApp\<lparr>isLoading := True\<rparr>"
proof -
  have h: "isLoading (exampleApp\<lparr>isLoading := True\<rparr>) \<or> (trim ''Hello'' = [] \<and> ([] :: attachment list) = [])"
    by simp
  from send_ignored [OF h, of exampleEnv exampleSdk None] h show ?thesis by blast
qed

text \<open>
  The second copy rejects both combinations of claim C3 before it changes anything: the
  state stays as it was, at most an alert is shown.  The first copy does so for a
  text-to-image model with attachments.
\<close>

lemma handleSendMessage2_rejects:
  assumes "isImageToolActive (tools e)"
    and "(isImageEditModel (activeBaseModel e) \<and> atts = []) \<or>
         (isTextToImageModel (activeBaseModel e) \<and> atts \<noteq> [])"
  shows "handleSendMessage2 e s stopAt prompt atts a = a \<or>
         handleSendMessage2 e s stopAt prompt atts a = emit [Alert imageEditAlert] a \<or>
         handleSendMessage2 e s stopAt prompt atts a = emit [Alert textToImageAlert] a"
  using assms by (auto simp: handleSendMessage2_def split: option.splits list.splits)

lemma handleSendMessage_rejects_text_to_image:
  assumes "isImageToolActive (tools e)" and "isTextToImageModel (activeBaseModel e)" and "atts \<noteq> []"
  shows "handleSendMessage e s stopAt prompt atts a = a \<or>
         handleSendMessage e s stopAt prompt atts a = emit [Alert textToImageAlert] a"
  using assms by (auto simp: handleSendMessage_def)

text \<open>
  Claim C3 fails in the first copy, which lacks the check for an image-edit model without
  attachments: with the image tool on, an image-edit model selected and no attachment, the
  handler sets the loading flag, adds a session and calls the generation client.  The second
  copy shows the alert and changes nothing.
\<close>

theorem image_edit_without_attachment_first_copy:
  "isImageToolActive (tools editEnv) \<and> isImageEditModel (activeBaseModel editEnv) \<and>
   log (handleSendMessage editEnv exampleSdk None ''make it blue'' [] exampleApp) =
     [SetIsLoading True, TurnAppended, AdapterCall GenerateChatResponse, ChunkObserved,
      AdapterReturned, SetIsLoading False, FinalCommit] \<and>
   map chatId (chatHistory (handleSendMessage editEnv exampleSdk None ''make it blue'' [] exampleApp))
     = [''1700000000000''] \<and>
   chatHistory exampleApp = [] \<and>
   handleSendMessage2 editEnv exampleSdk None ''make it blue'' [] exampleApp2
     = emit [Alert imageEditAlert] exampleApp2"
proof -
  have 1: "isImageToolActive (tools editEnv) \<and> isImageEditModel (activeBaseModel editEnv)"
    by code_simp
  have 2: "log (handleSendMessage editEnv exampleSdk None ''make it blue'' [] exampleApp) =
     [SetIsLoading True, TurnAppended, AdapterCall GenerateChatResponse, ChunkObserved,
      AdapterReturned, SetIsLoading False, FinalCommit]"
    by code_simp
  have 3: "map chatId (chatHistory (handleSendMessage editEnv exampleSdk None ''make it blue'' [] exampleApp))
     = [''1700000000000'']"
    by code_simp
  have 4: "chatHistory exampleApp = []" by (simp add: exampleApp_def)
  have 5: "handleSendMessage2 editEnv exampleSdk None ''make it blue'' [] exampleApp2
     = emit [Alert imageEditAlert] exampleApp2"
    by (simp add: handleSendMessage2_def editEnv_def exampleEnv_def exampleApp2_def exampleApp_def
        handleToggleImageTool_def initialToggles_def isTextToImageModel_def isImageEditModel_def
        imageEditModels_def trim_def isWhiteSpace_def)
  from 1 2 3 4 5 show ?thesis by blast
qed

text \<open>
  Every log of the handlers is that of a request that reached the generation client, or one
  of the short logs of a call that was ignored, rejected or threw before.
\<close>

lemma short_logs_silent:
  assumes "L = [] \<or> L = [Alert textToImageAlert] \<or> L = [Alert imageEditAlert] \<or>
        L = [SetIsLoading True, UnhandledRejection] \<or>
        L = [SetIsLoading True, TurnAppended, UnhandledRejection] \<or>
        L = [SetIsLoading True, TurnAppended, ProjectCreated, UnhandledRejection]"
  shows "AdapterReturned \<notin> set L \<and> StopPressed \<notin> set L \<and> AdapterThrewAbortError \<notin> set L"
  using assms by auto

lemma handler_logs:
  "\<exists>L. log (handleSendMessage e s stopAt prompt atts a) = log a @ L \<and>
       (requestLog L \<or> (AdapterReturned \<notin> set L \<and> StopPressed \<notin> set L \<and> AdapterThrewAbortError \<notin> set L))"
  "\<exists>L. log (handleSendMessage2 e s stopAt prompt atts a) = log a @ L \<and>
       (requestLog L \<or> (AdapterReturned \<notin> set L \<and> StopPressed \<notin> set L \<and> AdapterThrewAbortError \<notin> set L))"
proof -
  from handleSendMessage_log[of e s stopAt prompt atts a] obtain L where
    "log (handleSendMessage e s stopAt prompt atts a) = log a @ L"
    "requestLog L \<or> L = [] \<or> L = [Alert textToImageAlert] \<or>
        L = [SetIsLoading True, TurnAppended, UnhandledRejection] \<or>
        L = [SetIsLoading True, TurnAppended, ProjectCreated, UnhandledRejection]"
    by blast
  then show "\<exists>L. log (handleSendMessage e s stopAt prompt atts a) = log a @ L \<and>
       (requestLog L \<or> (AdapterReturned \<notin> set L \<and> StopPressed \<notin> set L \<and> AdapterThrewAbortError \<notin> set L))"
    using short_logs_silent[of L] by blast
  from handleSendMessage2_log[of e s stopAt prompt atts a] obtain L where
    "log (handleSendMessage2 e s stopAt prompt atts a) = log a @ L"
    "requestLog L \<or> L = [] \<or> L = [Alert textToImageAlert] \<or> L = [Alert imageEditAlert] \<or>
        L = [SetIsLoading True, UnhandledRejection]"
    by blast
  then show "\<exists>L. log (handleSendMessage2 e s stopAt prompt atts a) = log a @ L \<and>
       (requestLog L \<or> (AdapterReturned \<notin> set L \<and> StopPressed \<notin> set L \<and> AdapterThrewAbortError \<notin> set L))"
    using short_logs_silent[of L] by blast
qed

text \<open>
  Claim C2, as the code has it.  In both copies, when the generation client returned and
  Stop was not pressed, the events of the call end with the clearing of the loading flag
  followed by the final commit, in this order, and neither occurs earlier; so the final
  commit comes after every observed chunk or response and after, not before, the loading
  flag is cleared.
\<close>

theorem final_commit_follows_loading_clear:
  "(\<exists>L. log (handleSendMessage e s stopAt prompt atts a) = log a @ L \<and>
        (AdapterReturned \<in> set L \<and> StopPressed \<notin> set L \<longrightarrow>
           (\<exists>pre. L = pre @ [SetIsLoading False, FinalCommit] \<and>
                  SetIsLoading False \<notin> set pre \<and> FinalCommit \<notin> set pre))) \<and>
   (\<exists>L. log (handleSendMessage2 e s stopAt prompt atts a) = log a @ L \<and>
        (AdapterReturned \<in> set L \<and> StopPressed \<notin> set L \<longrightarrow>
           (\<exists>pre. L = pre @ [SetIsLoading False, FinalCommit] \<and>
                  SetIsLoading False \<notin> set pre \<and> FinalCommit \<notin> set pre)))"
  using handler_logs[of e s stopAt prompt atts a] requestLog_success by blast

theorem final_commit_follows_loading_clear_witness:
  "AdapterReturned \<in> set (log (handleSendMessage exampleEnv exampleSdk None ''Hello'' [] exampleApp)) \<and>
   StopPressed \<notin> set (log (handleSendMessage exampleEnv exampleSdk None ''Hello'' [] exampleApp)) \<and>
   (\<exists>pre. log (handleSendMessage exampleEnv exampleSdk None ''Hello'' [] exampleApp) =
            pre @ [SetIsLoading False, FinalCommit] \<and>
          SetIsLoading False \<notin> set pre \<and> FinalCommit \<notin> set pre)"
proof -
  have lg: "log (handleSendMessage exampleEnv exampleSdk None ''Hello'' [] exampleApp) =
     [SetIsLoading True, TurnAppended, AdapterCall GenerateChatResponse, ChunkObserved, StreamEcho,
      ChunkObserved, StreamEcho, AdapterReturned, SetIsLoading False, FinalCommit]"
    by code_simp
  have l0: "log exampleApp = []" by (simp add: exampleApp_def)
  from final_commit_follows_loading_clear [of exampleEnv exampleSdk None "''Hello''" "[]" exampleApp]
  obtain L where L: "log (handleSendMessage exampleEnv exampleSdk None ''Hello'' [] exampleApp) = log exampleApp @ L"
    "AdapterReturned \<in> set L \<and> StopPressed \<notin> set L \<longrightarrow>
           (\<exists>pre. L = pre @ [SetIsLoading False, FinalCommit] \<and>
                  SetIsLoading False \<notin> set pre \<and> FinalCommit \<notin> set pre)"
    by blast
  from L(1) l0 have eq: "L = log (handleSendMessage exampleEnv exampleSdk None ''Hello'' [] exampleApp)"
    by simp
  have h: "AdapterReturned \<in> set L \<and> StopPressed \<notin> set L" unfolding eq lg by simp
  with L(2) have "\<exists>pre. L = pre @ [SetIsLoading False, FinalCommit] \<and>
                  SetIsLoading False \<notin> set pre \<and> FinalCommit \<notin> set pre" by blast
  with h show ?thesis unfolding eq by blast
qed

text \<open>
  Claim C2 as stated fails: in a streamed chat that ends normally, in either copy, the final
  commit is the last event and the clearing of the loading flag comes before it.
\<close>

theorem final_commit_before_loading_clear_counterexample:
  "log (handleSendMessage exampleEnv exampleSdk None ''Hello'' [] exampleApp) =
     [SetIsLoading True, TurnAppended, AdapterCall GenerateChatResponse, ChunkObserved, StreamEcho,
      ChunkObserved, StreamEcho, AdapterReturned, SetIsLoading False, FinalCommit] \<and>
   \<not> precedes FinalCommit (SetIsLoading False)
       (log (handleSendMessage exampleEnv exampleSdk None ''Hello'' [] exampleApp)) \<and>
   precedes (SetIsLoading False) FinalCommit
       (log (handleSendMessage exampleEnv exampleSdk None ''Hello'' [] exampleApp)) \<and>
   \<not> precedes FinalCommit (SetIsLoading False)
       (log (handleSendMessage2 exampleEnv exampleSdk None ''Hello'' [] exampleApp2)) \<and>
   precedes (SetIsLoading False) FinalCommit
       (log (handleSendMessage2 exampleEnv exampleSdk None ''Hello'' [] exampleApp2))"
  by code_simp

text \<open>
  Of claim C7 the code keeps this much, in both copies: once Stop was pressed during a
  request the final updater is not applied, and when the generation client threw the abort
  error neither the error text nor the final commit is written.
\<close>

lemma abort_skips_finalization:
  "\<exists>L. log (handleSendMessage e s stopAt prompt atts a) = log a @ L \<and>
        (StopPressed \<in> set L \<longrightarrow> FinalCommit \<notin> set L) \<and>
        (AdapterThrewAbortError \<in> set L \<longrightarrow> ErrorCommit \<notin> set L \<and> FinalCommit \<notin> set L)"
  "\<exists>L. log (handleSendMessage2 e s stopAt prompt atts a) = log a @ L \<and>
        (StopPressed \<in> set L \<longrightarrow> FinalCommit \<notin> set L) \<and>
        (AdapterThrewAbortError \<in> set L \<longrightarrow> ErrorCommit \<notin> set L \<and> FinalCommit \<notin> set L)"
  using handler_logs[of e s stopAt prompt atts a] requestLog_stopped requestLog_abort_silent
  by blast+

text \<open>
  Claim C7 fails where Stop is pressed while the next chunk of a stream is awaited.  The
  stream loop tests the signal only before it awaits; the chunk that arrives after the stop
  still goes to the callback, whose echo replaces the notice that the stop handler wrote.
  Here the stream yields \<^verbatim>\<open>Hi\<close> and \<^verbatim>\<open> there\<close> and Stop is pressed during the
  second wait: a chunk is observed after the stop, and the trailing message ends as
  \<^verbatim>\<open>Hi there\<close>.  Pressed during the wait that ends the stream, the notice stays.
\<close>

theorem stop_during_stream_consumes_next_chunk:
  "log (handleSendMessage exampleEnv exampleSdk (Some 2) ''Hello'' [] exampleApp) =
     [SetIsLoading True, TurnAppended, AdapterCall GenerateChatResponse, ChunkObserved, StreamEcho,
      StopPressed, ChunkObserved, StreamEcho, AdapterThrewAbortError, SetIsLoading False] \<and>
   transcript (handleSendMessage exampleEnv exampleSdk (Some 2) ''Hello'' [] exampleApp) =
     [[''Hello'', ''Hi there'']] \<and>
   transcript (handleSendMessage2 exampleEnv exampleSdk (Some 2) ''Hello'' [] exampleApp2) =
     [[''Hello'', ''Hi there'']] \<and>
   ''Hi there'' \<noteq> stoppedNotice \<and>
   transcript (handleSendMessage exampleEnv exampleSdk (Some 3) ''Hello'' [] exampleApp) =
     [[''Hello'', stoppedNotice]]"
  by code_simp

text \<open>
  Claim C9 fails in the first copy whenever the text arrives in more than one chunk with a
  non-empty last chunk: before the final updater runs, the \<^verbatim>\<open>finally\<close> clause replaces
  the accumulated text by the text of the last response.  Here the plain chat stream
  delivers \<^verbatim>\<open><thinking>reasoning here</thinking>\<close> and then \<^verbatim>\<open>visible answer\<close>: the
  accumulated text contains the block, but the finalized message keeps the empty reasoning of
  the placeholder.  For the chunks \<^verbatim>\<open>Hi\<close> and \<^verbatim>\<open> there\<close>, without a block, the content
  is \<^verbatim>\<open> there\<close> and not the accumulated text.  The second copy, which replaces the text
  only for image and video requests, gives what the claim says.
\<close>

theorem thinking_block_lost_across_chunks:
  "reasonedTranscript (handleSendMessage exampleEnv thinkingSdk None ''Hello'' [] exampleApp) =
     [[(''Hello'', None), (''visible answer'', Some [])]] \<and>
   reasonedTranscript (handleSendMessage2 exampleEnv thinkingSdk None ''Hello'' [] exampleApp2) =
     [[(''Hello'', None), (''visible answer'', Some ''reasoning here'')]] \<and>
   transcript (handleSendMessage exampleEnv exampleSdk None ''Hello'' [] exampleApp) =
     [[''Hello'', '' there'']] \<and>
   transcript (handleSendMessage2 exampleEnv exampleSdk None ''Hello'' [] exampleApp2) =
     [[''Hello'', ''Hi there'']]"
  by code_simp

text \<open>
  Claim C5 fails in the first copy for the same reason.  Here the code interpreter is on and
  the stream delivers the text \<^verbatim>\<open>{}\<close>, which parses and has none of the three fields, as
  the chunks \<^verbatim>\<open>{\<close> and \<^verbatim>\<open>}\<close>.  The first copy parses the last chunk alone, which
  fails, and the message is the other fallback text followed by \<^verbatim>\<open>}\<close>.  The second copy
  gives the fixed prefix followed by the accumulated text.
\<close>

theorem project_payload_lost_across_chunks:
  "transcript (handleSendMessage interpreterEnv jsonSdk None ''make a button'' [] exampleApp) =
     [[''make a button'', failedToParse @ ''}'']] \<and>
   \<not> prefix notExpectedFormat (failedToParse @ ''}'') \<and>
   exampleJsonParse (cleanJsonString ''{}'') = Some (ParsedValue None None None) \<and>
   transcript (handleSendMessage2 interpreterEnv jsonSdk None ''make a button'' [] exampleApp2) =
     [[''make a button'', notExpectedFormat @ ''{}'']]"
  by code_simp

end
